theory Spec2Isabelle
  imports Main "HOL-Library.Sublist"
begin

section \<open>Python strings\<close>

text \<open>
  A Python \<open>str\<close> is modelled as a \<^typ>\<open>string\<close>: the list of its code points, each
  below 256. On that range the character classes below are the ones CPython uses:
  \<open>str.strip()\<close> and the pattern \<open>\s\<close> share one whitespace table, and \<open>\d\<close> is
  the decimal digits \<open>0\<close> to \<open>9\<close>. \<open>lower\<close> maps the ASCII capitals to their small
  letters; the patterns of the source hold ASCII letters only, and no other character
  of the range equals one of these up to case.
\<close>

definition isspace :: "char \<Rightarrow> bool" where
  "isspace c = (let n = (of_char c :: nat) in
     (9 \<le> n \<and> n \<le> 13) \<or> (28 \<le> n \<and> n \<le> 32) \<or> n = 133 \<or> n = 160)"

definition isdecimal :: "char \<Rightarrow> bool" where
  "isdecimal c = (let n = (of_char c :: nat) in 48 \<le> n \<and> n \<le> 57)"

definition lower :: "char \<Rightarrow> char" where
  "lower c = (let n = (of_char c :: nat) in
     if 65 \<le> n \<and> n \<le> 90 then char_of (n + 32) else c)"

definition strip :: "string \<Rightarrow> string" where
  "strip s = rev (dropWhile isspace (rev (dropWhile isspace s)))"

definition startswith :: "string \<Rightarrow> string \<Rightarrow> bool" where
  "startswith s p = (take (length p) s = p)"

definition endswith :: "string \<Rightarrow> string \<Rightarrow> bool" where
  "endswith s p = (length p \<le> length s \<and> drop (length s - length p) s = p)"

text \<open>\<open>s.split(sep)\<close> for a nonempty separator: the pieces between the occurrences of
  \<open>sep\<close>, found left to right without overlap; there is always at least one piece.\<close>

function split_str :: "string \<Rightarrow> string \<Rightarrow> string list" where
  "split_str sep [] = [[]]"
| "split_str sep (c # cs) =
     (if sep \<noteq> [] \<and> take (length sep) (c # cs) = sep
      then [] # split_str sep (drop (length sep) (c # cs))
      else (case split_str sep cs of
              [] \<Rightarrow> [[c]]
            | p # ps \<Rightarrow> (c # p) # ps))"
  by pat_completeness auto
termination
  by (relation "measure (\<lambda>(sep, s). length s)") (auto simp: not_less)

text \<open>\<open>s.replace(old, new)\<close> for a nonempty \<open>old\<close>: every occurrence, left to right
  without overlap.\<close>

function replace_str :: "string \<Rightarrow> string \<Rightarrow> string \<Rightarrow> string" where
  "replace_str old new [] = []"
| "replace_str old new (c # cs) =
     (if old \<noteq> [] \<and> take (length old) (c # cs) = old
      then new @ replace_str old new (drop (length old) (c # cs))
      else c # replace_str old new cs)"
  by pat_completeness auto
termination
  by (relation "measure (\<lambda>(old, new, s). length s)") (auto simp: not_less)

text \<open>\<open>sep.join(xs)\<close>.\<close>

fun join_str :: "string \<Rightarrow> string list \<Rightarrow> string" where
  "join_str sep [] = []"
| "join_str sep [x] = x"
| "join_str sep (x # y # ys) = x @ sep @ join_str sep (y # ys)"

section \<open>The regular expressions of module \<open>re\<close>\<close>

text \<open>
  The patterns of the source use literals, the classes \<open>\d\<close> and \<open>\s\<close>, the anchor
  \<open>^\<close>, sequence, alternation and the greedy repetitions \<open>*\<close> and \<open>+\<close>.
  \<open>x+\<close> is \<open>x\<close> followed by \<open>x*\<close>.
\<close>

datatype regex =
    Eps
  | Lit char
  | Digit
  | Space
  | Bol
  | Seq regex regex
  | Alt regex regex
  | Star regex

abbreviation Plus :: "regex \<Rightarrow> regex" where
  "Plus r \<equiv> Seq r (Star r)"

fun lits :: "string \<Rightarrow> regex" where
  "lits [] = Eps"
| "lits [c] = Lit c"
| "lits (c # d # ds) = Seq (Lit c) (lits (d # ds))"

text \<open>
  The backtracking matcher: \<open>rests ic n r s\<close> lists, in the order in which the engine
  tries them, the remainders of \<open>s\<close> after each way of matching \<open>r\<close> at the start
  of \<open>s\<close>. \<open>ic\<close> is the flag \<open>re.I\<close>, \<open>n\<close> the length of the whole subject (the
  anchor \<open>^\<close> matches where nothing has been consumed yet). A greedy repetition tries
  one more iteration before it tries to stop, and gives up an iteration that consumed
  nothing.
\<close>

function rests :: "bool \<Rightarrow> nat \<Rightarrow> regex \<Rightarrow> string \<Rightarrow> string list" where
  "rests ic n Eps s = [s]"
| "rests ic n (Lit c) s =
     (case s of [] \<Rightarrow> []
      | x # xs \<Rightarrow> if (if ic then lower x = lower c else x = c) then [xs] else [])"
| "rests ic n Digit s =
     (case s of [] \<Rightarrow> [] | x # xs \<Rightarrow> if isdecimal x then [xs] else [])"
| "rests ic n Space s =
     (case s of [] \<Rightarrow> [] | x # xs \<Rightarrow> if isspace x then [xs] else [])"
| "rests ic n Bol s = (if length s = n then [s] else [])"
| "rests ic n (Seq a b) s = concat (map (rests ic n b) (rests ic n a s))"
| "rests ic n (Alt a b) s = rests ic n a s @ rests ic n b s"
| "rests ic n (Star a) s =
     concat (map (\<lambda>s'. if length s' < length s then rests ic n (Star a) s' else [])
                 (rests ic n a s)) @ [s]"
  by pat_completeness auto
termination
  by (relation "measures [\<lambda>(ic, n, r, s). size r, \<lambda>(ic, n, r, s). length s]") auto

text \<open>\<open>re.match(r, s)\<close> as a truth value, and \<open>re.fullmatch(r, s)\<close>, which accepts only
  a way of matching that consumes all of \<open>s\<close>.\<close>

definition re_match :: "bool \<Rightarrow> regex \<Rightarrow> string \<Rightarrow> bool" where
  "re_match ic r s = (rests ic (length s) r s \<noteq> [])"

definition re_fullmatch :: "bool \<Rightarrow> regex \<Rightarrow> string \<Rightarrow> bool" where
  "re_fullmatch ic r s = ([] \<in> set (rests ic (length s) r s))"

text \<open>
  \<open>re.sub(r, repl, s)\<close> for a replacement without group references: the scan goes left
  to right; where the pattern matches, the first way of matching is replaced and the scan
  goes on after it; after an empty match the next match at the same place must consume
  something (\<open>adv\<close>); where nothing matches the character is copied. Under \<open>adv\<close>
  every candidate is shorter than \<open>s\<close>, so the branch \<open>if adv then []\<close> is never
  taken.
\<close>

function re_sub_from :: "bool \<Rightarrow> nat \<Rightarrow> regex \<Rightarrow> string \<Rightarrow> bool \<Rightarrow> string \<Rightarrow> string" where
  "re_sub_from ic n r repl adv s =
     (case filter (\<lambda>s'. \<not> adv \<or> length s' < length s) (rests ic n r s) of
        [] \<Rightarrow> (case s of [] \<Rightarrow> [] | c # cs \<Rightarrow> c # re_sub_from ic n r repl False cs)
      | s' # _ \<Rightarrow>
          repl @ (if length s' < length s then re_sub_from ic n r repl False s'
                  else if adv then [] else re_sub_from ic n r repl True s))"
  by pat_completeness auto
termination
  by (relation "measures [\<lambda>(ic, n, r, repl, adv, s). length s,
                          \<lambda>(ic, n, r, repl, adv, s). if adv then 0 else 1]") auto

definition re_sub :: "bool \<Rightarrow> regex \<Rightarrow> string \<Rightarrow> string \<Rightarrow> string" where
  "re_sub ic r repl s = re_sub_from ic (length s) r repl False s"

section \<open>The text cleaner\<close>

definition digits_re :: regex where
  "digits_re = Plus Digit"

definition header_re :: regex where
  "header_re = Seq Bol (Seq (Alt (lits ''Page'') (Alt (lits ''Chapter'') (lits ''Section'')))
                            (Seq (Star Space) (Plus Digit)))"

definition spaces_re :: regex where
  "spaces_re = Plus Space"

definition clean_text :: "string \<Rightarrow> string" where
  "clean_text text =
     (let lines = map strip (split_str ''\<newline>'' text);
          lines = filter (\<lambda>line. line \<noteq> []
                            \<and> \<not> re_fullmatch False digits_re line
                            \<and> \<not> re_match True header_re line) lines
      in re_sub False spaces_re '' '' (join_str '' '' lines))"

text \<open>The same steps in the words of the specification: a line is discarded when it is
  empty after trimming, or consists entirely of digits, or starts, in any letter case,
  with Page, Chapter or Section, then optional whitespace, then a digit; the surviving
  lines are joined with one space and every whitespace run becomes one space.\<close>

definition all_digits :: "string \<Rightarrow> bool" where
  "all_digits s = (s \<noteq> [] \<and> list_all isdecimal s)"

definition starts_with_header :: "string \<Rightarrow> bool" where
  "starts_with_header s =
     list_ex (\<lambda>kw. map lower (take (length kw) s) = kw
                  \<and> (case dropWhile isspace (drop (length kw) s) of
                        [] \<Rightarrow> False | c # _ \<Rightarrow> isdecimal c))
             [''page'', ''chapter'', ''section'']"

function collapse_ws :: "string \<Rightarrow> string" where
  "collapse_ws [] = []"
| "collapse_ws (c # cs) =
     (if isspace c then CHR '' '' # collapse_ws (dropWhile isspace cs)
      else c # collapse_ws cs)"
  by pat_completeness auto
termination
  by (relation "measure length") (auto simp: less_Suc_eq_le length_dropWhile_le)

text \<open>Notions for the proofs: a string that starts with a digit; a string that is
  single-spaced, its only whitespace characters being spaces, no two of them adjacent.\<close>

definition digit_first :: "string \<Rightarrow> bool" where
  "digit_first s = (case s of [] \<Rightarrow> False | c # _ \<Rightarrow> isdecimal c)"

fun single_spaced :: "string \<Rightarrow> bool" where
  "single_spaced [] = True"
| "single_spaced [c] = (isspace c \<longrightarrow> c = CHR '' '')"
| "single_spaced (c # d # ds) =
     ((isspace c \<longrightarrow> c = CHR '' '' \<and> \<not> isspace d) \<and> single_spaced (d # ds))"

text \<open>A string is trimmed when it is not empty and neither starts nor ends with
  whitespace.\<close>

definition trimmed :: "string \<Rightarrow> bool" where
  "trimmed s = (s \<noteq> [] \<and> \<not> isspace (hd s) \<and> \<not> isspace (last s))"

definition discarded :: "string \<Rightarrow> bool" where
  "discarded line = (line = [] \<or> all_digits line \<or> starts_with_header line)"

definition spec_clean_text :: "string \<Rightarrow> string" where
  "spec_clean_text text =
     collapse_ws (join_str '' '' (filter (\<lambda>line. \<not> discarded line)
                                         (map strip (split_str ''\<newline>'' text))))"

text \<open>Python's \<open>sub in s\<close>.\<close>

fun contains :: "string \<Rightarrow> string \<Rightarrow> bool" where
  "contains [] sub = (sub = [])"
| "contains (c # cs) sub = (take (length sub) (c # cs) = sub \<or> contains cs sub)"

section \<open>Errors and effects\<close>

text \<open>
  An exception is a value: \<open>HTTPException status detail\<close> is the one the handlers raise
  themselves, \<open>UnicodeDecodeError\<close> comes from \<open>bytes.decode\<close>, and \<open>LibraryError\<close>
  stands for whatever the PDF library or the model client raises. The calls that touch
  the outside are recorded in the order they happen.
\<close>

datatype py_error = HTTPException nat string | UnicodeDecodeError | LibraryError

datatype event = Read | Extract | Open | Close | Decode | Clean

type_synonym bytes = "char list"

text \<open>The PDF library is a parameter. \<open>fitz.open\<close> either raises or gives a document,
  the list of its pages; \<open>page.get_text()\<close> either raises or gives the page's text.\<close>

type_synonym page = "py_error + string"
type_synonym document = "page list"

section \<open>The PDF text extractor\<close>

text \<open>The generator expression \<open>page.get_text() for page in doc\<close>, consumed by
  \<open>join\<close>: the pages are read in order and the first error ends the reading.\<close>

fun get_texts :: "document \<Rightarrow> py_error + string list" where
  "get_texts [] = Inr []"
| "get_texts (p # ps) =
     (case p of
        Inl e \<Rightarrow> Inl e
      | Inr t \<Rightarrow> (case get_texts ps of Inl e \<Rightarrow> Inl e | Inr ts \<Rightarrow> Inr (t # ts)))"

definition extract_text_from_pdf ::
  "(bytes \<Rightarrow> py_error + document) \<Rightarrow> bytes \<Rightarrow> (py_error + string) \<times> event list" where
  "extract_text_from_pdf fitz_open file_bytes =
     (case fitz_open file_bytes of
        Inl e \<Rightarrow> (Inl (HTTPException 400 ''PDF text extraction failed''), [Extract])
      | Inr doc \<Rightarrow>
          (case get_texts doc of
             Inl e \<Rightarrow> (Inl (HTTPException 400 ''PDF text extraction failed''), [Extract, Open])
           | Inr texts \<Rightarrow> (Inr (join_str '' '' texts), [Extract, Open, Close])))"

text \<open>A handle is released in a run when the run closes as often as it opens.\<close>

definition released :: "event list \<Rightarrow> bool" where
  "released evs = (count_list evs Open = count_list evs Close)"

section \<open>The notes generator\<close>

record sections =
  short_notes :: string
  bullet_points :: string
  exam_summary :: string

definition prompt :: "string \<Rightarrow> string \<Rightarrow> string" where
  "prompt text difficulty =
     ''\<newline>You are an academic notes generator.\<newline>\<newline>Input Text:\<newline>''
     @ replicate 3 (CHR 0x22) @ text @ replicate 3 (CHR 0x22)
     @ ''\<newline>\<newline>Difficulty: '' @ difficulty
     @ ''\<newline>\<newline>Rules:\<newline>- No emojis\<newline>- No extra information\<newline>''
     @ ''- Use **bold** for keywords\<newline>- Exam-oriented\<newline>- Simple language\<newline>\<newline>''
     @ ''Output EXACTLY in this format:\<newline>\<newline>### Short Notes\<newline>...\<newline>\<newline>''
     @ ''### Bullet Points\<newline>...\<newline>\<newline>### Exam-Oriented Summary\<newline>...\<newline>''"

text \<open>The loop over the fragments of the response.\<close>

fun parse_parts :: "sections \<Rightarrow> string list \<Rightarrow> sections" where
  "parse_parts sec [] = sec"
| "parse_parts sec (part # parts) =
     (let part = strip part in
      parse_parts
        (if startswith part ''Short Notes'' then
           sec\<lparr>short_notes := strip (replace_str ''Short Notes'' [] part)\<rparr>
         else if startswith part ''Bullet Points'' then
           sec\<lparr>bullet_points := strip (replace_str ''Bullet Points'' [] part)\<rparr>
         else if startswith part ''Exam-Oriented Summary'' then
           sec\<lparr>exam_summary := strip (replace_str ''Exam-Oriented Summary'' [] part)\<rparr>
         else sec)
        parts)"

definition parse_response :: "string \<Rightarrow> sections" where
  "parse_response output =
     parse_parts \<lparr>short_notes = [], bullet_points = [], exam_summary = []\<rparr>
                 (split_str ''###'' output)"

text \<open>The model client is a parameter: it raises, or answers with a text or with none
  (\<open>response.text or ""\<close>).\<close>

definition generate_notes ::
  "(string \<Rightarrow> py_error + string option) \<Rightarrow> string \<Rightarrow> string \<Rightarrow> py_error + sections" where
  "generate_notes generate_content text difficulty =
     (case generate_content (prompt text difficulty) of
        Inl e \<Rightarrow> Inl e
      | Inr response_text \<Rightarrow>
          Inr (parse_response (case response_text of None \<Rightarrow> [] | Some t \<Rightarrow> t)))"

text \<open>What the loop leaves in a field: the body of the last fragment that starts with
  the heading, or the empty string when no fragment does.\<close>

definition section_of :: "string \<Rightarrow> string \<Rightarrow> string" where
  "section_of heading output =
     (case filter (\<lambda>part. startswith part heading) (map strip (split_str ''###'' output)) of
        [] \<Rightarrow> []
      | p # ps \<Rightarrow> strip (replace_str heading [] (last (p # ps))))"

section \<open>The upload route\<close>

record upload =
  filename :: string
  content :: bytes

text \<open>The UTF-8 codec is a parameter: \<open>None\<close> where \<open>decode\<close> raises.\<close>

definition upload_file ::
  "(bytes \<Rightarrow> py_error + document) \<Rightarrow> (bytes \<Rightarrow> string option) \<Rightarrow> upload
   \<Rightarrow> (py_error + string) \<times> event list" where
  "upload_file fitz_open decode file =
     (let file_bytes = content file;
          (text, evs) =
            (if endswith (filename file) ''.pdf'' then
               (let (r, evs) = extract_text_from_pdf fitz_open file_bytes in (r, Read # evs))
             else if endswith (filename file) ''.txt'' then
               (case decode file_bytes of
                  None \<Rightarrow> (Inl UnicodeDecodeError, [Read, Decode])
                | Some t \<Rightarrow> (Inr t, [Read, Decode]))
             else (Inl (HTTPException 400 ''Only PDF and TXT supported''), [Read]))
      in case text of
           Inl e \<Rightarrow> (Inl e, evs)
         | Inr text \<Rightarrow>
             (let cleaned = clean_text text in
              if cleaned = [] then (Inl (HTTPException 400 ''No valid text found''), evs @ [Clean])
              else (Inr cleaned, evs @ [Clean])))"

text \<open>The second half of the route on its own: what it does with the outcome of the
  extension dispatch.\<close>

definition finish :: "(py_error + string) \<times> event list \<Rightarrow> (py_error + string) \<times> event list" where
  "finish r = (case fst r of
       Inl e \<Rightarrow> (Inl e, snd r)
     | Inr text \<Rightarrow>
         (if clean_text text = [] then (Inl (HTTPException 400 ''No valid text found''), snd r @ [Clean])
          else (Inr (clean_text text), snd r @ [Clean])))"

text \<open>Stand-ins for the libraries, for concrete runs: a codec that accepts ASCII, a PDF
  library that opens every buffer as one given document, and a model client that gives
  one given answer.\<close>

definition ascii_decode :: "bytes \<Rightarrow> string option" where
  "ascii_decode bs = (if list_all (\<lambda>b. (of_char b :: nat) < 128) bs then Some bs else None)"

definition opens_as :: "document \<Rightarrow> bytes \<Rightarrow> py_error + document" where
  "opens_as doc bs = Inr doc"

definition answers :: "string \<Rightarrow> string \<Rightarrow> py_error + string option" where
  "answers response_text p = Inr (Some response_text)"

section \<open>The patterns of the cleaner, read as predicates on a line\<close>

text \<open>The equation of a repetition rewrites under its own \<open>\<lambda>\<close>, and the equation of
  the substitution rewrites itself: both are used by name only.\<close>


lemmas rests_Star = rests.simps(8)
declare rests.simps(8) [simp del]
declare re_sub_from.simps [simp del]

lemma isdecimal_not_isspace: "isdecimal c \<Longrightarrow> \<not> isspace c"
  by (auto simp: isdecimal_def isspace_def Let_def)

lemma rests_Star_Digit_Nil: "rests ic n (Star Digit) [] = [[]]"
  by (simp add: rests_Star)

lemma rests_Star_Digit_Cons:
  "rests ic n (Star Digit) (x # xs) =
     (if isdecimal x then rests ic n (Star Digit) xs @ [x # xs] else [x # xs])"
  by (simp add: rests_Star)

lemma rests_Star_Space_Nil: "rests ic n (Star Space) [] = [[]]"
  by (simp add: rests_Star)

lemma rests_Star_Space_Cons:
  "rests ic n (Star Space) (x # xs) =
     (if isspace x then rests ic n (Star Space) xs @ [x # xs] else [x # xs])"
  by (simp add: rests_Star)

lemma Nil_in_rests_Star_Digit:
  "[] \<in> set (rests ic n (Star Digit) s) \<longleftrightarrow> list_all isdecimal s"
  by (induction s) (auto simp: rests_Star_Digit_Nil rests_Star_Digit_Cons)

lemma re_fullmatch_digits: "re_fullmatch False digits_re s \<longleftrightarrow> all_digits s"
  by (cases s) (auto simp: re_fullmatch_def digits_re_def all_digits_def Nil_in_rests_Star_Digit)

lemma rests_Star_Space_ne: "rests ic n (Star Space) s \<noteq> []"
  by (cases s) (auto simp: rests_Star_Space_Nil rests_Star_Space_Cons)

lemma hd_rests_Star_Space: "hd (rests ic n (Star Space) s) = dropWhile isspace s"
  by (induction s) (auto simp: rests_Star_Space_Nil rests_Star_Space_Cons rests_Star_Space_ne)

lemma set_rests_Star_Space:
  "set (rests ic n (Star Space) s) = {drop k s |k. k \<le> length (takeWhile isspace s)}"
proof (induction s)
  case Nil
  then show ?case by (simp add: rests_Star_Space_Nil)
next
  case (Cons x xs)
  show ?case
  proof (cases "isspace x")
    case True
    have "{drop k (x # xs) |k. k \<le> Suc (length (takeWhile isspace xs))}
          = insert (x # xs) {drop k xs |k. k \<le> length (takeWhile isspace xs)}"
      (is "?L = ?R")
    proof
      show "?L \<subseteq> ?R"
      proof
        fix y assume "y \<in> ?L"
        then obtain k where k: "y = drop k (x # xs)" "k \<le> Suc (length (takeWhile isspace xs))"
          by blast
        show "y \<in> ?R"
        proof (cases k)
          case 0
          with k show ?thesis by simp
        next
          case (Suc j)
          with k show ?thesis by auto
        qed
      qed
      show "?R \<subseteq> ?L"
      proof
        fix y assume "y \<in> ?R"
        then consider "y = x # xs" | k where "y = drop k xs" "k \<le> length (takeWhile isspace xs)"
          by blast
        then show "y \<in> ?L"
        proof cases
          case 1
          then have "y = drop 0 (x # xs)" by simp
          then show ?thesis by blast
        next
          case 2
          then have "y = drop (Suc k) (x # xs)" "Suc k \<le> Suc (length (takeWhile isspace xs))"
            by simp_all
          then show ?thesis by blast
        qed
      qed
    qed
    with True Cons show ?thesis
      by (simp add: rests_Star_Space_Cons)
  next
    case False
    then show ?thesis
      by (auto simp: rests_Star_Space_Cons)
  qed
qed

lemma rests_Star_Digit_ne: "rests ic n (Star Digit) s \<noteq> []"
  by (cases s) (auto simp: rests_Star_Digit_Nil rests_Star_Digit_Cons)


lemma rests_Plus_Digit_ne: "rests ic n (Plus Digit) s \<noteq> [] \<longleftrightarrow> digit_first s"
  by (cases s) (auto simp: digit_first_def rests_Star_Digit_ne)

lemma digit_first_drop:
  assumes "k \<le> length (takeWhile isspace s)" "digit_first (drop k s)"
  shows "drop k s = dropWhile isspace s"
proof (cases "k = length (takeWhile isspace s)")
  case True
  then show ?thesis by (simp add: dropWhile_eq_drop)
next
  case False
  with assms(1) have lt: "k < length (takeWhile isspace s)" by simp
  then have ks: "k < length s"
    using length_takeWhile_le [of isspace s] by linarith
  from lt have "isspace (takeWhile isspace s ! k)"
    using nth_mem set_takeWhileD by metis
  with lt have sp: "isspace (s ! k)" by (simp add: takeWhile_nth)
  from ks have "drop k s = s ! k # drop (Suc k) s" by (simp add: Cons_nth_drop_Suc)
  with assms(2) have "isdecimal (s ! k)" by (simp add: digit_first_def)
  with sp show ?thesis using isdecimal_not_isspace by blast
qed

lemma rests_tail_ne:
  "rests ic n (Seq (Star Space) (Plus Digit)) s \<noteq> [] \<longleftrightarrow> digit_first (dropWhile isspace s)"
proof
  assume "rests ic n (Seq (Star Space) (Plus Digit)) s \<noteq> []"
  then obtain s' where s': "s' \<in> set (rests ic n (Star Space) s)" "rests ic n (Plus Digit) s' \<noteq> []"
    by auto
  from s'(1) obtain k where k: "s' = drop k s" "k \<le> length (takeWhile isspace s)"
    unfolding set_rests_Star_Space by blast
  from s'(2) have "digit_first s'" by (simp only: rests_Plus_Digit_ne)
  with k show "digit_first (dropWhile isspace s)" using digit_first_drop by metis
next
  assume d: "digit_first (dropWhile isspace s)"
  have "dropWhile isspace s \<in> set (rests ic n (Star Space) s)"
    unfolding set_rests_Star_Space using dropWhile_eq_drop [of isspace s] by auto
  moreover from d have "rests ic n (Plus Digit) (dropWhile isspace s) \<noteq> []"
    by (simp only: rests_Plus_Digit_ne)
  ultimately show "rests ic n (Seq (Star Space) (Plus Digit)) s \<noteq> []"
    by auto
qed

lemma rests_lits:
  "kw \<noteq> [] \<Longrightarrow> rests True n (lits kw) s =
     (if map lower (take (length kw) s) = map lower kw then [drop (length kw) s] else [])"
proof (induction kw arbitrary: s rule: lits.induct)
  case 1
  then show ?case by simp
next
  case (2 c)
  then show ?case by (cases s) auto
next
  case (3 c d ds)
  then show ?case by (cases s) auto
qed

lemma lower_keywords:
  "map lower ''Page'' = ''page''" "map lower ''Chapter'' = ''chapter''"
  "map lower ''Section'' = ''section''"
  by code_simp+


lemma rests_header_split:
  "rests True (length s) header_re s =
     concat (map (rests True (length s) (Seq (Star Space) (Plus Digit)))
                 (rests True (length s) (lits ''Page'') s))
     @ concat (map (rests True (length s) (Seq (Star Space) (Plus Digit)))
                 (rests True (length s) (lits ''Chapter'') s))
     @ concat (map (rests True (length s) (Seq (Star Space) (Plus Digit)))
                 (rests True (length s) (lits ''Section'') s))"
  unfolding header_re_def
  by (simp only: rests.simps(5,6,7) simp_thms if_True map_append concat_append list.map concat.simps append_Nil2 append_assoc)

lemma re_match_header: "re_match True header_re s \<longleftrightarrow> starts_with_header s"
proof -
  let ?T = "Seq (Star Space) (Plus Digit)"
  let ?n = "length s"
  have kw: "(concat (map (rests True ?n ?T) (rests True ?n (lits kw) s)) \<noteq> [])
            = (map lower (take (length kw) s) = map lower kw
               \<and> digit_first (dropWhile isspace (drop (length kw) s)))"
    if "kw \<noteq> []" for kw
  proof (cases "map lower (take (length kw) s) = map lower kw")
    case True
    have "rests True ?n (lits kw) s = [drop (length kw) s]"
      unfolding rests_lits [OF that] using True by (simp only: if_True simp_thms)
    then show ?thesis
      using True rests_tail_ne [of True ?n "drop (length kw) s"]
      by (simp only: list.map concat.simps append_Nil2 simp_thms)
  next
    case False
    have "rests True ?n (lits kw) s = []"
      unfolding rests_lits [OF that] using False by (simp only: if_False simp_thms)
    then show ?thesis
      using False by (simp only: list.map concat.simps simp_thms)
  qed
  have "re_match True header_re s
        = (concat (map (rests True ?n ?T) (rests True ?n (lits ''Page'') s)) \<noteq> []
           \<or> concat (map (rests True ?n ?T) (rests True ?n (lits ''Chapter'') s)) \<noteq> []
           \<or> concat (map (rests True ?n ?T) (rests True ?n (lits ''Section'') s)) \<noteq> [])"
    unfolding re_match_def rests_header_split by (simp only: append_is_Nil_conv de_Morgan_conj)
  also have "\<dots> = starts_with_header s"
    unfolding starts_with_header_def
    by (simp only: kw [of "''Page''"] kw [of "''Chapter''"] kw [of "''Section''"]
          lower_keywords list_ex_Cons_iff list_ex_Nil_iff digit_first_def list.distinct
          simp_thms list.size length_Cons)
  finally show ?thesis .
qed

lemma rests_Plus_Space_Cons:
  "rests ic n (Plus Space) (x # xs) = (if isspace x then rests ic n (Star Space) xs else [])"
  by simp

lemma re_sub_from_spaces:
  "re_sub_from ic n spaces_re '' '' False s = collapse_ws s"
proof (induction s rule: collapse_ws.induct)
  case 1
  show ?case
    by (simp add: re_sub_from.simps [of _ _ _ _ _ "[]"] spaces_re_def)
next
  case (2 c cs)
  show ?case
  proof (cases "isspace c")
    case True
    obtain r rs where r: "rests ic n (Star Space) cs = r # rs"
      using rests_Star_Space_ne [of ic n cs] by (cases "rests ic n (Star Space) cs") auto
    then have "r = dropWhile isspace cs"
      using hd_rests_Star_Space [of ic n cs] by simp
    moreover have "length (dropWhile isspace cs) < Suc (length cs)"
      using length_dropWhile_le [of isspace cs] by linarith
    ultimately show ?thesis
      using True r 2(1)
      by (simp add: re_sub_from.simps [of _ _ _ _ _ "c # cs"] spaces_re_def
               rests_Plus_Space_Cons del: rests.simps)
  next
    case False
    then show ?thesis
      using 2(2)
      by (simp add: re_sub_from.simps [of _ _ _ _ _ "c # cs"] spaces_re_def
               rests_Plus_Space_Cons del: rests.simps)
  qed
qed

lemma re_sub_spaces: "re_sub False spaces_re '' '' s = collapse_ws s"
  by (simp add: re_sub_def re_sub_from_spaces)

lemma clean_text_eq_spec: "clean_text text = spec_clean_text text"
  by (simp add: clean_text_def spec_clean_text_def discarded_def re_sub_spaces
        re_fullmatch_digits re_match_header)

section \<open>Whitespace\<close>


lemma isspace_space: "isspace CHR '' ''"
  by code_simp

lemma isspace_newline: "isspace CHR ''\<newline>''"
  by code_simp

lemma dropWhile_isspace_head:
  "dropWhile isspace s = d # ds \<Longrightarrow> \<not> isspace d"
  using hd_dropWhile [of isspace s] by auto

lemma single_spaced_collapse_ws: "single_spaced (collapse_ws s)"
proof (induction s rule: collapse_ws.induct)
  case 1
  show ?case by simp
next
  case (2 c cs)
  show ?case
  proof (cases "isspace c")
    case True
    show ?thesis
    proof (cases "dropWhile isspace cs")
      case Nil
      with True show ?thesis by (simp del: dropWhile_eq_Nil_conv)
    next
      case (Cons d ds)
      then have nd: "\<not> isspace d" by (rule dropWhile_isspace_head)
      from 2(1) True Cons have "single_spaced (collapse_ws (d # ds))" by simp
      with True Cons nd show ?thesis by simp
    qed
  next
    case False
    with 2(2) have ih: "single_spaced (collapse_ws cs)" by simp
    show ?thesis
    proof (cases "collapse_ws cs")
      case Nil
      with False show ?thesis by simp
    next
      case (Cons e es)
      with False ih show ?thesis by simp
    qed
  qed
qed

lemma collapse_ws_single_spaced: "single_spaced s \<Longrightarrow> collapse_ws s = s"
proof (induction s rule: single_spaced.induct)
  case 1
  show ?case by simp
next
  case (2 c)
  then show ?case by simp
next
  case (3 c d ds)
  then show ?case by (cases "isspace c") auto
qed

lemma single_spaced_only_spaces:
  "single_spaced s \<Longrightarrow> c \<in> set s \<Longrightarrow> isspace c \<Longrightarrow> c = CHR '' ''"
  by (induction s rule: single_spaced.induct) auto

lemma single_spaced_no_double: "single_spaced s \<Longrightarrow> \<not> contains s ''  ''"
proof (induction s rule: single_spaced.induct)
  case 1
  show ?case by simp
next
  case (2 c)
  show ?case by simp
next
  case (3 c d ds)
  from "3.prems" have a: "isspace c \<longrightarrow> c = CHR '' '' \<and> \<not> isspace d"
    and b: "single_spaced (d # ds)" by simp_all
  from b have ih: "\<not> contains (d # ds) ''  ''" by (rule "3.IH")
  have ne: "[c, d] \<noteq> ''  ''"
  proof
    assume "[c, d] = ''  ''"
    then have c: "c = CHR '' ''" and d: "d = CHR '' ''" by simp_all
    from c have "isspace c" by (simp only: isspace_space)
    moreover from d have "isspace d" by (simp only: isspace_space)
    ultimately show False using a by blast
  qed
  have "take (length ''  '') (c # d # ds) = [c, d]" by simp
  with ne ih show ?case by (simp only: contains.simps simp_thms)
qed

lemma split_str_no_sep: "c \<notin> set s \<Longrightarrow> split_str [c] s = [s]"
  by (induction s) auto

lemma dropWhile_head_id: "xs \<noteq> [] \<Longrightarrow> \<not> P (hd xs) \<Longrightarrow> dropWhile P xs = xs"
  by (cases xs) auto

lemma strip_id:
  assumes "s = [] \<or> (\<not> isspace (hd s) \<and> \<not> isspace (last s))"
  shows "strip s = s"
proof (cases s)
  case Nil
  then show ?thesis by (simp add: strip_def)
next
  case (Cons x xs)
  with assms have h: "\<not> isspace x" and l: "\<not> isspace (last s)" by auto
  from Cons h have 1: "dropWhile isspace s = s" by simp
  from Cons have "rev s \<noteq> []" by simp
  moreover have "\<not> isspace (hd (rev s))"
    using l by (simp only: hd_rev simp_thms)
  ultimately have 2: "dropWhile isspace (rev s) = rev s"
    by (rule dropWhile_head_id)
  show ?thesis by (simp add: strip_def 1 2)
qed

lemma strip_ends:
  assumes "strip x \<noteq> []"
  shows "\<not> isspace (hd (strip x))" and "\<not> isspace (last (strip x))"
proof -
  let ?y = "dropWhile isspace x"
  let ?z = "dropWhile isspace (rev ?y)"
  from assms have z: "?z \<noteq> []" by (simp add: strip_def)
  have y: "?y \<noteq> []"
  proof
    assume "?y = []"
    then have "?z = []" by (simp only: rev.simps dropWhile.simps)
    with z show False by contradiction
  qed
  have "last (strip x) = hd ?z" using z by (simp add: strip_def last_rev)
  moreover have "\<not> isspace (hd ?z)" using z hd_dropWhile by blast
  ultimately show "\<not> isspace (last (strip x))" by simp
  have "hd (strip x) = last ?z" using z by (simp add: strip_def hd_rev)
  also have "last ?z = last (rev ?y)"
  proof -
    have "rev ?y = takeWhile isspace (rev ?y) @ ?z" by simp
    then show ?thesis using z by (metis last_appendR)
  qed
  also have "\<dots> = hd ?y" using y by (simp add: last_rev)
  finally have "hd (strip x) = hd ?y" .
  moreover have "\<not> isspace (hd ?y)" using y hd_dropWhile by blast
  ultimately show "\<not> isspace (hd (strip x))" by simp
qed

section \<open>Joined lines\<close>

lemma collapse_ws_Nil_iff: "collapse_ws s = [] \<longleftrightarrow> s = []"
  by (cases s) simp_all

lemma collapse_ws_no_space: "\<forall>c \<in> set s. \<not> isspace c \<Longrightarrow> collapse_ws s = s"
  by (induction s) simp_all

lemma collapse_ws_space_mem:
  "\<exists>c \<in> set s. isspace c \<Longrightarrow> CHR '' '' \<in> set (collapse_ws s)"
proof (induction s rule: collapse_ws.induct)
  case 1
  then show ?case by simp
next
  case (2 c cs)
  show ?case
  proof (cases "isspace c")
    case True
    then show ?thesis by simp
  next
    case False
    with "2.prems" have "\<exists>c \<in> set cs. isspace c" by simp
    with False "2.IH"(2) have "CHR '' '' \<in> set (collapse_ws cs)" by blast
    with False show ?thesis by simp
  qed
qed

lemma collapse_ws_last:
  "s \<noteq> [] \<Longrightarrow> \<not> isspace (last s) \<Longrightarrow> collapse_ws s \<noteq> [] \<and> last (collapse_ws s) = last s"
proof (induction s rule: collapse_ws.induct)
  case 1
  then show ?case by simp
next
  case (2 c cs)
  show ?case
  proof (cases "isspace c")
    case True
    with "2.prems" have cs: "cs \<noteq> []" by (cases cs) auto
    with "2.prems" have lc: "\<not> isspace (last cs)" by simp
    let ?d = "dropWhile isspace cs"
    have "cs = takeWhile isspace cs @ ?d" by simp
    moreover have dn: "?d \<noteq> []"
    proof
      assume "?d = []"
      then have "\<forall>x \<in> set cs. isspace x" by (simp only: dropWhile_eq_Nil_conv)
      with cs lc show False using last_in_set by blast
    qed
    ultimately have ld: "last ?d = last cs" by (metis last_appendR)
    with lc have "\<not> isspace (last ?d)" by simp
    with True dn "2.IH"(1) have "collapse_ws ?d \<noteq> [] \<and> last (collapse_ws ?d) = last ?d"
      by blast
    with True ld cs show ?thesis by simp
  next
    case False
    show ?thesis
    proof (cases cs)
      case Nil
      with False show ?thesis by simp
    next
      case (Cons e es)
      with "2.prems" have "cs \<noteq> []" "\<not> isspace (last cs)" by simp_all
      with False "2.IH"(2) have "collapse_ws cs \<noteq> [] \<and> last (collapse_ws cs) = last cs"
        by blast
      with False Cons show ?thesis by simp
    qed
  qed
qed

lemma collapse_ws_hd:
  "s \<noteq> [] \<Longrightarrow> \<not> isspace (hd s) \<Longrightarrow> hd (collapse_ws s) = hd s"
  by (cases s) simp_all

lemma trimmed_join:
  "ls \<noteq> [] \<Longrightarrow> \<forall>l \<in> set ls. trimmed l \<Longrightarrow> trimmed (join_str '' '' ls)"
proof (induction "'' ''" ls rule: join_str.induct)
  case 1
  then show ?case by simp
next
  case (2 x)
  then show ?case by simp
next
  case (3 x y ys)
  then have x: "trimmed x" and r: "trimmed (join_str '' '' (y # ys))" by simp_all
  from x r show ?case by (auto simp: trimmed_def)
qed

lemma join_str_space_mem: "CHR '' '' \<in> set (join_str '' '' (x # y # ys))"
  by simp

lemma trimmed_collapse_ws: "trimmed s \<Longrightarrow> trimmed (collapse_ws s)"
  using collapse_ws_last [of s] collapse_ws_hd [of s] by (simp add: trimmed_def)

lemma trimmed_strip: "strip x \<noteq> [] \<Longrightarrow> trimmed (strip x)"
  using strip_ends [of x] by (simp add: trimmed_def)

lemma strip_trimmed: "trimmed s \<Longrightarrow> strip s = s"
  by (rule strip_id) (simp add: trimmed_def)

section \<open>The shape of cleaned text\<close>

lemma kept_line:
  assumes "l \<in> set (filter (\<lambda>line. \<not> discarded line) (map strip xs))"
  shows "trimmed l" and "\<not> all_digits l" and "\<not> starts_with_header l"
proof -
  from assms obtain x where l: "l = strip x" and nd: "\<not> discarded l" by auto
  from nd have "l \<noteq> []" by (simp add: discarded_def)
  with l show "trimmed l" using trimmed_strip by blast
  from nd show "\<not> all_digits l" and "\<not> starts_with_header l"
    by (simp_all add: discarded_def)
qed

lemma spec_clean_text_Nil_iff:
  "spec_clean_text text = [] \<longleftrightarrow>
     (\<forall>l \<in> set (split_str ''\<newline>'' text). discarded (strip l))"
proof -
  let ?ls = "filter (\<lambda>line. \<not> discarded line) (map strip (split_str ''\<newline>'' text))"
  have "spec_clean_text text = [] \<longleftrightarrow> join_str '' '' ?ls = []"
    by (simp only: spec_clean_text_def collapse_ws_Nil_iff)
  also have "\<dots> \<longleftrightarrow> ?ls = []"
  proof
    assume j: "join_str '' '' ?ls = []"
    show "?ls = []"
    proof (rule ccontr)
      assume ne: "?ls \<noteq> []"
      have "\<forall>l \<in> set ?ls. trimmed l" using kept_line(1) by blast
      with ne have "trimmed (join_str '' '' ?ls)" by (rule trimmed_join)
      with j show False by (simp add: trimmed_def)
    qed
  next
    assume "?ls = []"
    then show "join_str '' '' ?ls = []" by simp
  qed
  also have "\<dots> \<longleftrightarrow> (\<forall>l \<in> set (split_str ''\<newline>'' text). discarded (strip l))"
    by (auto simp: filter_empty_conv)
  finally show ?thesis .
qed

lemma spec_clean_text_empty: "spec_clean_text [] = []"
  by (simp add: spec_clean_text_Nil_iff discarded_def strip_def)

lemma not_isspace_decimal: "isspace c \<Longrightarrow> \<not> isdecimal c"
  using isdecimal_not_isspace by blast

lemma spec_clean_text_shape:
  assumes "spec_clean_text text \<noteq> []"
  shows "trimmed (spec_clean_text text)"
    and "single_spaced (spec_clean_text text)"
    and "\<not> all_digits (spec_clean_text text)"
proof -
  let ?ls = "filter (\<lambda>line. \<not> discarded line) (map strip (split_str ''\<newline>'' text))"
  let ?j = "join_str '' '' ?ls"
  have out: "spec_clean_text text = collapse_ws ?j" by (simp only: spec_clean_text_def)
  from assms out have ne: "?ls \<noteq> []" by auto
  have tr: "\<forall>l \<in> set ?ls. trimmed l" using kept_line(1) by blast
  with ne have "trimmed ?j" by (rule trimmed_join)
  then show "trimmed (spec_clean_text text)"
    unfolding out by (rule trimmed_collapse_ws)
  show "single_spaced (spec_clean_text text)"
    unfolding out by (rule single_spaced_collapse_ws)
  show "\<not> all_digits (spec_clean_text text)"
  proof
    assume ad: "all_digits (spec_clean_text text)"
    then have dec: "\<forall>c \<in> set (collapse_ws ?j). isdecimal c"
      unfolding out by (simp add: all_digits_def list_all_iff)
    have nosp: "\<forall>c \<in> set ?j. \<not> isspace c"
    proof (rule ccontr)
      assume "\<not> (\<forall>c \<in> set ?j. \<not> isspace c)"
      then have "\<exists>c \<in> set ?j. isspace c" by blast
      then have "CHR '' '' \<in> set (collapse_ws ?j)" by (rule collapse_ws_space_mem)
      with dec have "isdecimal CHR '' ''" by blast
      then show False using isspace_space not_isspace_decimal by blast
    qed
    then have same: "collapse_ws ?j = ?j" by (rule collapse_ws_no_space)
    show False
    proof (cases ?ls)
      case Nil
      with ne show False by contradiction
    next
      case (Cons x ys)
      show False
      proof (cases ys)
        case Nil
        with Cons have "?j = x" by simp
        with ad out same have "all_digits x" by simp
        moreover have "x \<in> set ?ls" unfolding Cons by simp
        ultimately show False using kept_line(2) by blast
      next
        case (Cons y zs)
        with \<open>?ls = x # ys\<close> have "?j = join_str '' '' (x # y # zs)" by simp
        then have "CHR '' '' \<in> set ?j" using join_str_space_mem by simp
        with nosp show False using isspace_space by blast
      qed
    qed
  qed
qed

lemma newline_not_space: "CHR ''\<newline>'' \<noteq> CHR '' ''"
  by simp

lemma spec_clean_text_idem:
  "spec_clean_text (spec_clean_text text) =
     (if starts_with_header (spec_clean_text text) then [] else spec_clean_text text)"
proof (cases "spec_clean_text text = []")
  case True
  then show ?thesis by (simp add: spec_clean_text_empty)
next
  case False
  let ?out = "spec_clean_text text"
  from False have tr: "trimmed ?out" and ss: "single_spaced ?out" and nd: "\<not> all_digits ?out"
    by (rule spec_clean_text_shape)+
  have "CHR ''\<newline>'' \<notin> set ?out"
    using ss single_spaced_only_spaces isspace_newline newline_not_space by blast
  then have sp: "split_str ''\<newline>'' ?out = [?out]" by (rule split_str_no_sep)
  from tr have st: "strip ?out = ?out" by (rule strip_trimmed)
  from ss have co: "collapse_ws ?out = ?out" by (rule collapse_ws_single_spaced)
  from False nd have di: "discarded ?out = starts_with_header ?out"
    by (simp add: discarded_def)
  have "spec_clean_text ?out =
          collapse_ws (join_str '' '' (filter (\<lambda>line. \<not> discarded line) [?out]))"
    unfolding spec_clean_text_def [of ?out] sp by (simp only: list.map st)
  also have "\<dots> = (if starts_with_header ?out then [] else ?out)"
    using di co by simp
  finally show ?thesis .
qed

section \<open>Claims about the text cleaner\<close>

lemma clean_text_example:
  "clean_text ''1\<newline>Introduction to Thermodynamics\<newline>Page 1\<newline>Heat is energy.''
   = ''Introduction to Thermodynamics Heat is energy.''"
  by code_simp

text \<open>
  C2. For every input, \<open>clean_text\<close> splits on line boundaries, trims each line,
  discards a line exactly when it is empty after trimming, or consists entirely of
  digits, or matches the header pattern at its start in any letter case, then joins the
  surviving lines with one space and collapses every whitespace run to one space: the
  function of the source, with its three regular expressions, computes what the
  description in words computes. On the page text of the scenario the result is
  \<open>Introduction to Thermodynamics Heat is energy.\<close>
\<close>

theorem clean_text_refines_spec:
  "clean_text text = spec_clean_text text
   \<and> clean_text ''1\<newline>Introduction to Thermodynamics\<newline>Page 1\<newline>Heat is energy.''
     = ''Introduction to Thermodynamics Heat is energy.''"
  using clean_text_eq_spec clean_text_example by (rule conjI)

theorem clean_text_refines_spec_witness:
  "clean_text ''12\<newline>  Heat   is energy. \<newline>section 3 Work''
   = spec_clean_text ''12\<newline>  Heat   is energy. \<newline>section 3 Work''
   \<and> spec_clean_text ''12\<newline>  Heat   is energy. \<newline>section 3 Work'' = ''Heat is energy.''"
proof -
  have "spec_clean_text ''12\<newline>  Heat   is energy. \<newline>section 3 Work'' = ''Heat is energy.''"
    by code_simp
  with clean_text_refines_spec [of "''12\<newline>  Heat   is energy. \<newline>section 3 Work''"]
  show ?thesis by blast
qed

text \<open>
  C6. For every input, the output of \<open>clean_text\<close> contains no two consecutive space
  characters; its only whitespace characters are single spaces.
\<close>

theorem clean_text_no_double_space:
  "\<not> contains (clean_text text) ''  ''
   \<and> (\<forall>c \<in> set (clean_text text). isspace c \<longrightarrow> c = CHR '' '')"
proof -
  have "single_spaced (clean_text text)"
    by (simp only: clean_text_eq_spec spec_clean_text_def single_spaced_collapse_ws)
  then show ?thesis
    using single_spaced_no_double single_spaced_only_spaces by blast
qed

theorem clean_text_no_double_space_witness:
  "clean_text ''a \<newline>  b    c'' = ''a b c''
   \<and> \<not> contains (clean_text ''a \<newline>  b    c'') ''  ''
   \<and> CHR '' '' \<in> set (clean_text ''a \<newline>  b    c'')
   \<and> isspace CHR '' ''"
proof -
  have e: "clean_text ''a \<newline>  b    c'' = ''a b c''"
    by code_simp
  have m: "CHR '' '' \<in> set (clean_text ''a \<newline>  b    c'')"
    unfolding e by simp
  from clean_text_no_double_space [of "''a \<newline>  b    c''"] e m isspace_space
  show ?thesis by blast
qed

text \<open>
  C5. For every input in which each trimmed line is empty, or consists entirely of
  digits, or matches the header pattern, \<open>clean_text\<close> returns the empty string. The
  line \<open>Chapter IV\<close> has no digit after the keyword: it is not in this class and
  survives.
\<close>

theorem clean_text_only_artifacts:
  "((\<forall>l \<in> set (split_str ''\<newline>'' text).
        strip l = [] \<or> re_fullmatch False digits_re (strip l)
        \<or> re_match True header_re (strip l))
     \<longrightarrow> clean_text text = [])
   \<and> \<not> re_match True header_re (strip ''Chapter IV'')
   \<and> clean_text ''Chapter IV'' = ''Chapter IV''"
proof -
  have "\<not> re_match True header_re (strip ''Chapter IV'')" by code_simp
  moreover have "clean_text ''Chapter IV'' = ''Chapter IV''" by code_simp
  moreover have "(\<forall>l \<in> set (split_str ''\<newline>'' text).
        strip l = [] \<or> re_fullmatch False digits_re (strip l)
        \<or> re_match True header_re (strip l))
     \<longrightarrow> clean_text text = []"
    by (simp only: clean_text_eq_spec spec_clean_text_Nil_iff discarded_def
          re_fullmatch_digits re_match_header simp_thms)
  ultimately show ?thesis by blast
qed

theorem clean_text_only_artifacts_witness:
  "list_all (\<lambda>l. strip l = [] \<or> re_fullmatch False digits_re (strip l)
                  \<or> re_match True header_re (strip l))
            (split_str ''\<newline>'' ''12\<newline> Page 3\<newline>\<newline>chapter  4 Heat'')
   \<and> clean_text ''12\<newline> Page 3\<newline>\<newline>chapter  4 Heat'' = []"
proof -
  have h: "list_all (\<lambda>l. strip l = [] \<or> re_fullmatch False digits_re (strip l)
                  \<or> re_match True header_re (strip l))
            (split_str ''\<newline>'' ''12\<newline> Page 3\<newline>\<newline>chapter  4 Heat'')"
    by code_simp
  then have "\<forall>l \<in> set (split_str ''\<newline>'' ''12\<newline> Page 3\<newline>\<newline>chapter  4 Heat'').
        strip l = [] \<or> re_fullmatch False digits_re (strip l)
        \<or> re_match True header_re (strip l)"
    by (simp only: list_all_iff)
  with clean_text_only_artifacts [of "''12\<newline> Page 3\<newline>\<newline>chapter  4 Heat''"]
  have "clean_text ''12\<newline> Page 3\<newline>\<newline>chapter  4 Heat'' = []" by blast
  with h show ?thesis by (rule conjI)
qed

text \<open>
  C1, as stated: the cleaner is idempotent. It is not: two lines that survive on their
  own can join into a text that starts with a header pattern, and cleaning that text
  again discards all of it.
\<close>

theorem clean_text_idempotent_counterexample:
  "clean_text (clean_text ''Chapter\<newline>1. Heat'') \<noteq> clean_text ''Chapter\<newline>1. Heat''"
proof -
  have "clean_text ''Chapter\<newline>1. Heat'' = ''Chapter 1. Heat''" by code_simp
  moreover have "clean_text ''Chapter 1. Heat'' = []" by code_simp
  ultimately show ?thesis by simp
qed

text \<open>
  C1, amended. Cleaning cleaned text returns it unchanged unless the cleaned text itself
  starts, in any letter case, with Page, Chapter or Section, optional whitespace and a
  digit; cleaning such a text again returns the empty string.
\<close>

theorem clean_text_idempotent_unless_header:
  "clean_text (clean_text text) =
     (if re_match True header_re (clean_text text) then [] else clean_text text)"
  by (simp only: clean_text_eq_spec re_match_header spec_clean_text_idem)

theorem clean_text_idempotent_unless_header_witness:
  "\<not> re_match True header_re (clean_text ''1\<newline> Heat   is energy.\<newline>Page 2'')
   \<and> clean_text (clean_text ''1\<newline> Heat   is energy.\<newline>Page 2'')
     = clean_text ''1\<newline> Heat   is energy.\<newline>Page 2''
   \<and> clean_text ''1\<newline> Heat   is energy.\<newline>Page 2'' = ''Heat is energy.''
   \<and> re_match True header_re (clean_text ''Chapter\<newline>1. Heat'')
   \<and> clean_text (clean_text ''Chapter\<newline>1. Heat'') = []"
proof -
  have a: "clean_text ''1\<newline> Heat   is energy.\<newline>Page 2'' = ''Heat is energy.''"
    by code_simp
  have b: "\<not> re_match True header_re ''Heat is energy.''" by code_simp
  have c: "clean_text ''Chapter\<newline>1. Heat'' = ''Chapter 1. Heat''" by code_simp
  have d: "re_match True header_re ''Chapter 1. Heat''" by code_simp
  from clean_text_idempotent_unless_header [of "''1\<newline> Heat   is energy.\<newline>Page 2''"] a b
  have 1: "clean_text (clean_text ''1\<newline> Heat   is energy.\<newline>Page 2'')
           = clean_text ''1\<newline> Heat   is energy.\<newline>Page 2''"
    by simp
  from clean_text_idempotent_unless_header [of "''Chapter\<newline>1. Heat''"] c d
  have 2: "clean_text (clean_text ''Chapter\<newline>1. Heat'') = []"
    by simp
  from a b c d 1 2 show ?thesis by simp
qed

section \<open>The upload route and the extractor\<close>

lemma extract_text_from_pdf_cases:
  "extract_text_from_pdf fitz_open bs =
     (Inl (HTTPException 400 ''PDF text extraction failed''), [Extract])
   \<or> extract_text_from_pdf fitz_open bs =
     (Inl (HTTPException 400 ''PDF text extraction failed''), [Extract, Open])
   \<or> (\<exists>t. extract_text_from_pdf fitz_open bs = (Inr t, [Extract, Open, Close]))"
  by (simp add: extract_text_from_pdf_def split: sum.splits)

lemma upload_file_other:
  assumes "\<not> endswith (filename file) ''.pdf''" "\<not> endswith (filename file) ''.txt''"
  shows "upload_file fitz_open decode file =
           (Inl (HTTPException 400 ''Only PDF and TXT supported''), [Read])"
  using assms by (simp add: upload_file_def)

lemma upload_file_pdf:
  assumes "endswith (filename file) ''.pdf''"
  shows "upload_file fitz_open decode file =
           finish (fst (extract_text_from_pdf fitz_open (content file)),
                   Read # snd (extract_text_from_pdf fitz_open (content file)))"
  using assms
  by (simp add: upload_file_def finish_def Let_def split: prod.splits sum.splits)

lemma upload_file_txt:
  assumes "\<not> endswith (filename file) ''.pdf''" "endswith (filename file) ''.txt''"
  shows "upload_file fitz_open decode file =
           finish (case decode (content file) of
                     None \<Rightarrow> (Inl UnicodeDecodeError, [Read, Decode])
                   | Some t \<Rightarrow> (Inr t, [Read, Decode]))"
  using assms
  by (simp add: upload_file_def finish_def Let_def split: prod.splits sum.splits option.splits)

lemma finish_not_unsupported:
  assumes "fst r \<noteq> Inl (HTTPException 400 ''Only PDF and TXT supported'')"
  shows "fst (finish r) \<noteq> Inl (HTTPException 400 ''Only PDF and TXT supported'')"
  using assms by (auto simp: finish_def split: sum.splits)

lemma finish_events: "set (snd r) \<subseteq> set (snd (finish r))"
  by (auto simp: finish_def split: sum.splits)

lemma upload_file_supported:
  assumes "endswith (filename file) ''.pdf'' \<or> endswith (filename file) ''.txt''"
  shows "fst (upload_file fitz_open decode file)
           \<noteq> Inl (HTTPException 400 ''Only PDF and TXT supported'')"
    and "Extract \<in> set (snd (upload_file fitz_open decode file))
         \<or> Decode \<in> set (snd (upload_file fitz_open decode file))"
proof -
  show "fst (upload_file fitz_open decode file)
           \<noteq> Inl (HTTPException 400 ''Only PDF and TXT supported'')"
  proof (cases "endswith (filename file) ''.pdf''")
    case True
    have "fst (extract_text_from_pdf fitz_open (content file))
            \<noteq> Inl (HTTPException 400 ''Only PDF and TXT supported'')"
      using extract_text_from_pdf_cases [of fitz_open "content file"] by auto
    then show ?thesis
      unfolding upload_file_pdf [OF True] by (intro finish_not_unsupported) simp
  next
    case False
    with assms have t: "endswith (filename file) ''.txt''" by blast
    show ?thesis
      unfolding upload_file_txt [OF False t]
      by (intro finish_not_unsupported) (simp split: option.splits)
  qed
  show "Extract \<in> set (snd (upload_file fitz_open decode file))
         \<or> Decode \<in> set (snd (upload_file fitz_open decode file))"
  proof (cases "endswith (filename file) ''.pdf''")
    case True
    have "Extract \<in> set (Read # snd (extract_text_from_pdf fitz_open (content file)))"
      using extract_text_from_pdf_cases [of fitz_open "content file"] by auto
    then show ?thesis
      unfolding upload_file_pdf [OF True] using finish_events by fastforce
  next
    case False
    with assms have t: "endswith (filename file) ''.txt''" by blast
    have "Decode \<in> set (snd (case decode (content file) of
                     None \<Rightarrow> (Inl UnicodeDecodeError, [Read, Decode])
                   | Some t \<Rightarrow> (Inr t, [Read, Decode])))"
      by (simp split: option.splits)
    then show ?thesis
      unfolding upload_file_txt [OF False t] using finish_events by fastforce
  qed
qed

lemma endswith_upper:
  assumes "endswith s ''.PDF'' \<or> endswith s ''.TXT''"
  shows "\<not> endswith s ''.pdf''" and "\<not> endswith s ''.txt''"
  using assms by (auto simp: endswith_def)

lemma extract_text_from_pdf_released:
  "fitz_open bs = Inr doc \<Longrightarrow>
     released (snd (extract_text_from_pdf fitz_open bs)) = (\<not> isl (get_texts doc))"
  by (simp add: extract_text_from_pdf_def released_def split: sum.splits)

section \<open>Claims about the upload route and the extractor\<close>

text \<open>
  C7, as stated: the upload fails with a 400 error exactly when the filename ends in
  neither extension. A text file that holds nothing but a page number has a supported
  extension and is answered with a 400 error all the same, the one for empty content.
\<close>

theorem upload_400_counterexample:
  "endswith ''notes.txt'' ''.txt''
   \<and> fst (upload_file (opens_as []) ascii_decode \<lparr>filename = ''notes.txt'', content = ''12''\<rparr>)
     = Inl (HTTPException 400 ''No valid text found'')"
  by code_simp

text \<open>
  C7, amended. The upload fails with the 400 error for an unsupported format exactly when
  the filename ends in neither \<open>.pdf\<close> nor \<open>.txt\<close>; for such a file the route reads
  the upload and does nothing else: no extraction, no decoding, no cleaning. A file
  named \<open>data.csv\<close> gets this error.
\<close>

theorem upload_unsupported_format:
  "((fst (upload_file fitz_open decode file)
       = Inl (HTTPException 400 ''Only PDF and TXT supported''))
     = (\<not> endswith (filename file) ''.pdf'' \<and> \<not> endswith (filename file) ''.txt''))
   \<and> (\<not> endswith (filename file) ''.pdf'' \<and> \<not> endswith (filename file) ''.txt''
        \<longrightarrow> snd (upload_file fitz_open decode file) = [Read])
   \<and> upload_file fitz_open decode \<lparr>filename = ''data.csv'', content = bs\<rparr>
       = (Inl (HTTPException 400 ''Only PDF and TXT supported''), [Read])"
proof (intro conjI)
  show "(fst (upload_file fitz_open decode file)
           = Inl (HTTPException 400 ''Only PDF and TXT supported''))
        = (\<not> endswith (filename file) ''.pdf'' \<and> \<not> endswith (filename file) ''.txt'')"
    using upload_file_supported(1) upload_file_other
    by auto
  show "\<not> endswith (filename file) ''.pdf'' \<and> \<not> endswith (filename file) ''.txt''
        \<longrightarrow> snd (upload_file fitz_open decode file) = [Read]"
    using upload_file_other by simp
  have "\<not> endswith ''data.csv'' ''.pdf''" "\<not> endswith ''data.csv'' ''.txt''"
    by (simp_all add: endswith_def)
  then show "upload_file fitz_open decode \<lparr>filename = ''data.csv'', content = bs\<rparr>
       = (Inl (HTTPException 400 ''Only PDF and TXT supported''), [Read])"
    using upload_file_other by simp
qed

theorem upload_unsupported_format_witness:
  "\<not> endswith ''data.csv'' ''.pdf'' \<and> \<not> endswith ''data.csv'' ''.txt''
   \<and> fst (upload_file (opens_as []) ascii_decode \<lparr>filename = ''data.csv'', content = ''a,b''\<rparr>)
       = Inl (HTTPException 400 ''Only PDF and TXT supported'')
   \<and> snd (upload_file (opens_as []) ascii_decode \<lparr>filename = ''data.csv'', content = ''a,b''\<rparr>)
       = [Read]"
proof -
  have n: "\<not> endswith ''data.csv'' ''.pdf''" "\<not> endswith ''data.csv'' ''.txt''"
    by (simp_all add: endswith_def)
  with upload_unsupported_format
    [of "opens_as []" ascii_decode "\<lparr>filename = ''data.csv'', content = ''a,b''\<rparr>"]
  show ?thesis by simp
qed

text \<open>
  C8. For every upload whose extraction or decoding succeeds with a text, the upload fails
  with the 400 error for empty content when the cleaned text is empty, and returns no
  text then; otherwise it returns exactly the cleaned text.
\<close>

theorem upload_empty_content:
  assumes "endswith (filename file) ''.pdf''
             \<and> fst (extract_text_from_pdf fitz_open (content file)) = Inr text
           \<or> \<not> endswith (filename file) ''.pdf'' \<and> endswith (filename file) ''.txt''
             \<and> decode (content file) = Some text"
  shows "fst (upload_file fitz_open decode file) =
           (if clean_text text = [] then Inl (HTTPException 400 ''No valid text found'')
            else Inr (clean_text text))"
  using assms
proof (elim disjE conjE)
  assume p: "endswith (filename file) ''.pdf''"
    and e: "fst (extract_text_from_pdf fitz_open (content file)) = Inr text"
  show ?thesis
    unfolding upload_file_pdf [OF p] by (simp add: finish_def e)
next
  assume p: "\<not> endswith (filename file) ''.pdf''" and t: "endswith (filename file) ''.txt''"
    and d: "decode (content file) = Some text"
  show ?thesis
    unfolding upload_file_txt [OF p t] by (simp add: finish_def d)
qed

theorem upload_empty_content_witness:
  "endswith ''notes.pdf'' ''.pdf''
   \<and> fst (extract_text_from_pdf (opens_as [Inr ''1\<newline>Heat   is'', Inr ''energy.\<newline>Page 2''])
            ''%PDF'') = Inr ''1\<newline>Heat   is energy.\<newline>Page 2''
   \<and> fst (upload_file (opens_as [Inr ''1\<newline>Heat   is'', Inr ''energy.\<newline>Page 2''])
            ascii_decode \<lparr>filename = ''notes.pdf'', content = ''%PDF''\<rparr>)
       = Inr ''Heat is energy.''
   \<and> endswith ''pages.pdf'' ''.pdf''
   \<and> fst (extract_text_from_pdf (opens_as [Inr ''1\<newline>'', Inr ''\<newline>Page 2'']) ''%PDF'')
       = Inr ''1\<newline> \<newline>Page 2''
   \<and> fst (upload_file (opens_as [Inr ''1\<newline>'', Inr ''\<newline>Page 2''])
            ascii_decode \<lparr>filename = ''pages.pdf'', content = ''%PDF''\<rparr>)
       = Inl (HTTPException 400 ''No valid text found'')"
proof -
  have a: "endswith ''notes.pdf'' ''.pdf''" "endswith ''pages.pdf'' ''.pdf''"
    by (simp_all add: endswith_def)
  have b: "fst (extract_text_from_pdf (opens_as [Inr ''1\<newline>Heat   is'', Inr ''energy.\<newline>Page 2''])
            ''%PDF'') = Inr ''1\<newline>Heat   is energy.\<newline>Page 2''"
    by (simp add: extract_text_from_pdf_def opens_as_def)
  have c: "clean_text ''1\<newline>Heat   is energy.\<newline>Page 2'' = ''Heat is energy.''"
    by code_simp
  have d: "fst (extract_text_from_pdf (opens_as [Inr ''1\<newline>'', Inr ''\<newline>Page 2'']) ''%PDF'')
       = Inr ''1\<newline> \<newline>Page 2''"
    by (simp add: extract_text_from_pdf_def opens_as_def)
  have e: "clean_text ''1\<newline> \<newline>Page 2'' = []"
    by code_simp
  from upload_empty_content
    [of "\<lparr>filename = ''notes.pdf'', content = ''%PDF''\<rparr>"
        "opens_as [Inr ''1\<newline>Heat   is'', Inr ''energy.\<newline>Page 2'']"
        "''1\<newline>Heat   is energy.\<newline>Page 2''" ascii_decode] a(1) b c
  have 1: "fst (upload_file (opens_as [Inr ''1\<newline>Heat   is'', Inr ''energy.\<newline>Page 2''])
            ascii_decode \<lparr>filename = ''notes.pdf'', content = ''%PDF''\<rparr>)
       = Inr ''Heat is energy.''"
    by simp
  from upload_empty_content
    [of "\<lparr>filename = ''pages.pdf'', content = ''%PDF''\<rparr>"
        "opens_as [Inr ''1\<newline>'', Inr ''\<newline>Page 2'']" "''1\<newline> \<newline>Page 2''" ascii_decode] a(2) d e
  have 2: "fst (upload_file (opens_as [Inr ''1\<newline>'', Inr ''\<newline>Page 2''])
            ascii_decode \<lparr>filename = ''pages.pdf'', content = ''%PDF''\<rparr>)
       = Inl (HTTPException 400 ''No valid text found'')"
    by simp
  from a b d 1 2 show ?thesis by blast
qed

text \<open>
  C10. The extension test is case-sensitive: the route extracts or decodes exactly when
  the filename ends in lower-case \<open>.pdf\<close> or \<open>.txt\<close>, and a filename that ends in
  \<open>.PDF\<close> or \<open>.TXT\<close> is rejected with the 400 error for an unsupported format
  before anything is extracted or decoded.
\<close>

theorem upload_extension_case_sensitive:
  "((Extract \<in> set (snd (upload_file fitz_open decode file))
      \<or> Decode \<in> set (snd (upload_file fitz_open decode file)))
     = (endswith (filename file) ''.pdf'' \<or> endswith (filename file) ''.txt''))
   \<and> (endswith (filename file) ''.PDF'' \<or> endswith (filename file) ''.TXT''
        \<longrightarrow> upload_file fitz_open decode file
            = (Inl (HTTPException 400 ''Only PDF and TXT supported''), [Read]))"
proof (intro conjI impI)
  show "(Extract \<in> set (snd (upload_file fitz_open decode file))
      \<or> Decode \<in> set (snd (upload_file fitz_open decode file)))
     = (endswith (filename file) ''.pdf'' \<or> endswith (filename file) ''.txt'')"
  proof (cases "endswith (filename file) ''.pdf'' \<or> endswith (filename file) ''.txt''")
    case True
    then show ?thesis using upload_file_supported(2) by blast
  next
    case False
    then have "upload_file fitz_open decode file
            = (Inl (HTTPException 400 ''Only PDF and TXT supported''), [Read])"
      using upload_file_other by blast
    with False show ?thesis by simp
  qed
next
  assume "endswith (filename file) ''.PDF'' \<or> endswith (filename file) ''.TXT''"
  then have "\<not> endswith (filename file) ''.pdf''" "\<not> endswith (filename file) ''.txt''"
    by (rule endswith_upper)+
  then show "upload_file fitz_open decode file
            = (Inl (HTTPException 400 ''Only PDF and TXT supported''), [Read])"
    by (rule upload_file_other)
qed

theorem upload_extension_case_sensitive_witness:
  "endswith ''NOTES.PDF'' ''.PDF''
   \<and> upload_file (opens_as [Inr ''Heat'']) ascii_decode
         \<lparr>filename = ''NOTES.PDF'', content = ''%PDF''\<rparr>
       = (Inl (HTTPException 400 ''Only PDF and TXT supported''), [Read])
   \<and> endswith ''notes.TXT'' ''.TXT''
   \<and> upload_file (opens_as [Inr ''Heat'']) ascii_decode
         \<lparr>filename = ''notes.TXT'', content = ''Heat''\<rparr>
       = (Inl (HTTPException 400 ''Only PDF and TXT supported''), [Read])
   \<and> endswith ''notes.txt'' ''.txt''
   \<and> Decode \<in> set (snd (upload_file (opens_as [Inr ''Heat'']) ascii_decode
         \<lparr>filename = ''notes.txt'', content = ''Heat''\<rparr>))"
proof -
  have a: "endswith ''NOTES.PDF'' ''.PDF''" "endswith ''notes.TXT'' ''.TXT''"
    "endswith ''notes.txt'' ''.txt''" "\<not> endswith ''notes.txt'' ''.pdf''"
    by (simp_all add: endswith_def)
  from upload_extension_case_sensitive
    [of "opens_as [Inr ''Heat'']" ascii_decode "\<lparr>filename = ''NOTES.PDF'', content = ''%PDF''\<rparr>"]
    a(1)
  have 1: "upload_file (opens_as [Inr ''Heat'']) ascii_decode
         \<lparr>filename = ''NOTES.PDF'', content = ''%PDF''\<rparr>
       = (Inl (HTTPException 400 ''Only PDF and TXT supported''), [Read])"
    by simp
  from upload_extension_case_sensitive
    [of "opens_as [Inr ''Heat'']" ascii_decode "\<lparr>filename = ''notes.TXT'', content = ''Heat''\<rparr>"]
    a(2)
  have 2: "upload_file (opens_as [Inr ''Heat'']) ascii_decode
         \<lparr>filename = ''notes.TXT'', content = ''Heat''\<rparr>
       = (Inl (HTTPException 400 ''Only PDF and TXT supported''), [Read])"
    by simp
  have "snd (upload_file (opens_as [Inr ''Heat'']) ascii_decode
         \<lparr>filename = ''notes.txt'', content = ''Heat''\<rparr>) = [Read, Decode, Clean]"
    by code_simp
  then have 3: "Decode \<in> set (snd (upload_file (opens_as [Inr ''Heat'']) ascii_decode
         \<lparr>filename = ''notes.txt'', content = ''Heat''\<rparr>))"
    by simp
  from a(1,2,3) 1 2 3 show ?thesis by blast
qed

text \<open>
  C9. The extractor is to release the opened document on every exit path. It closes the
  document after the last page has been read, and only there: when a page cannot be
  read, the error handler answers with the 400 error and the document opened before is
  never closed. Here the second page of a document fails; the same call on the first
  page alone closes the document.
\<close>

theorem extract_text_from_pdf_unreleased:
  "extract_text_from_pdf (opens_as [Inr ''Heat'', Inl LibraryError]) ''%PDF''
     = (Inl (HTTPException 400 ''PDF text extraction failed''), [Extract, Open])
   \<and> \<not> released (snd (extract_text_from_pdf (opens_as [Inr ''Heat'', Inl LibraryError]) ''%PDF''))
   \<and> extract_text_from_pdf (opens_as [Inr ''Heat'']) ''%PDF''
     = (Inr ''Heat'', [Extract, Open, Close])
   \<and> released (snd (extract_text_from_pdf (opens_as [Inr ''Heat'']) ''%PDF''))"
  by (simp add: extract_text_from_pdf_def opens_as_def released_def)

section \<open>The loop over the fragments\<close>

lemma headings_exclusive:
  "startswith p ''Short Notes'' \<Longrightarrow> \<not> startswith p ''Bullet Points''"
  "startswith p ''Short Notes'' \<Longrightarrow> \<not> startswith p ''Exam-Oriented Summary''"
  "startswith p ''Bullet Points'' \<Longrightarrow> \<not> startswith p ''Exam-Oriented Summary''"
  by (cases p; simp add: startswith_def)+

lemma parse_parts_short_notes:
  "short_notes (parse_parts sec parts) =
     (case filter (\<lambda>p. startswith p ''Short Notes'') (map strip parts) of
        [] \<Rightarrow> short_notes sec
      | p # ps \<Rightarrow> strip (replace_str ''Short Notes'' [] (last (p # ps))))"
proof (induction parts arbitrary: sec)
  case Nil
  show ?case by simp
next
  case (Cons part parts)
  show ?case
    by (simp only: parse_parts.simps Let_def Cons.IH list.map filter.simps)
       (simp split: list.splits)
qed

lemma parse_parts_bullet_points:
  "bullet_points (parse_parts sec parts) =
     (case filter (\<lambda>p. startswith p ''Bullet Points'') (map strip parts) of
        [] \<Rightarrow> bullet_points sec
      | p # ps \<Rightarrow> strip (replace_str ''Bullet Points'' [] (last (p # ps))))"
proof (induction parts arbitrary: sec)
  case Nil
  show ?case by simp
next
  case (Cons part parts)
  show ?case
    by (simp only: parse_parts.simps Let_def Cons.IH list.map filter.simps)
       (simp add: headings_exclusive split: list.splits)
qed

lemma parse_parts_exam_summary:
  "exam_summary (parse_parts sec parts) =
     (case filter (\<lambda>p. startswith p ''Exam-Oriented Summary'') (map strip parts) of
        [] \<Rightarrow> exam_summary sec
      | p # ps \<Rightarrow> strip (replace_str ''Exam-Oriented Summary'' [] (last (p # ps))))"
proof (induction parts arbitrary: sec)
  case Nil
  show ?case by simp
next
  case (Cons part parts)
  show ?case
    by (simp only: parse_parts.simps Let_def Cons.IH list.map filter.simps)
       (simp add: headings_exclusive split: list.splits)
qed

lemma parse_response_fields:
  "short_notes (parse_response output) = section_of ''Short Notes'' output"
  "bullet_points (parse_response output) = section_of ''Bullet Points'' output"
  "exam_summary (parse_response output) = section_of ''Exam-Oriented Summary'' output"
  unfolding parse_response_def section_of_def
  by (simp_all only: parse_parts_short_notes parse_parts_bullet_points
        parse_parts_exam_summary sections.simps)

lemma section_of_missing:
  "\<not> (\<exists>p \<in> set (split_str ''###'' output). startswith (strip p) heading)
     \<Longrightarrow> section_of heading output = []"
proof -
  assume "\<not> (\<exists>p \<in> set (split_str ''###'' output). startswith (strip p) heading)"
  then have "filter (\<lambda>part. startswith part heading) (map strip (split_str ''###'' output)) = []"
    by (auto simp: filter_empty_conv)
  then show ?thesis by (simp add: section_of_def)
qed

section \<open>Fragments are pieces of the response\<close>

lemma contains_append: "contains (a @ sub @ b) sub"
proof (induction a)
  case Nil
  show ?case
  proof (cases "sub @ b")
    case Nil
    then show ?thesis by simp
  next
    case (Cons x xs)
    have "take (length sub) (sub @ b) = sub" by simp
    then have "take (length sub) (x # xs) = sub" by (simp only: Cons)
    then have "contains (x # xs) sub" by (simp only: contains.simps simp_thms)
    then show ?thesis by (simp only: append_Nil Cons)
  qed
next
  case (Cons x a)
  then show ?case by simp
qed

lemma split_str_first:
  "split_str sep s = q # qs \<Longrightarrow> \<exists>b. s = q @ b"
proof (induction sep s arbitrary: q qs rule: split_str.induct)
  case (1 sep)
  then show ?case by simp
next
  case (2 sep c cs)
  show ?case
  proof (cases "sep \<noteq> [] \<and> take (length sep) (c # cs) = sep")
    case True
    with "2.prems" have "q = []" by simp
    then show ?thesis by simp
  next
    case False
    then have eq: "split_str sep (c # cs) =
        (case split_str sep cs of [] \<Rightarrow> [[c]] | p # ps \<Rightarrow> (c # p) # ps)"
      by (simp only: split_str.simps(2) if_False)
    show ?thesis
    proof (cases "split_str sep cs")
      case Nil
      with eq "2.prems" have "q = [c]" by simp
      then show ?thesis by simp
    next
      case (Cons r rs)
      with eq "2.prems" have q: "q = c # r" by simp
      from False Cons "2.IH"(2) obtain b where "cs = r @ b" by blast
      with q show ?thesis by simp
    qed
  qed
qed

lemma split_str_piece:
  "p \<in> set (split_str sep s) \<Longrightarrow> \<exists>a b. s = a @ p @ b"
proof (induction sep s arbitrary: p rule: split_str.induct)
  case (1 sep)
  then show ?case by simp
next
  case (2 sep c cs)
  show ?case
  proof (cases "sep \<noteq> [] \<and> take (length sep) (c # cs) = sep")
    case True
    with "2.prems" have "p = [] \<or> p \<in> set (split_str sep (drop (length sep) (c # cs)))"
      by simp
    then show ?thesis
    proof
      assume "p = []"
      then have "c # cs = [] @ p @ (c # cs)" by simp
      then show ?thesis by blast
    next
      assume "p \<in> set (split_str sep (drop (length sep) (c # cs)))"
      with True "2.IH"(1) obtain a b where "drop (length sep) (c # cs) = a @ p @ b"
        by blast
      then have "c # cs = (take (length sep) (c # cs) @ a) @ p @ b"
        by (metis append_assoc append_take_drop_id)
      then show ?thesis by blast
    qed
  next
    case False
    then have eq: "split_str sep (c # cs) =
        (case split_str sep cs of [] \<Rightarrow> [[c]] | p # ps \<Rightarrow> (c # p) # ps)"
      by (simp only: split_str.simps(2) if_False)
    show ?thesis
    proof (cases "split_str sep cs")
      case Nil
      with eq "2.prems" have "p = [c]" by simp
      then have "c # cs = [] @ p @ cs" by simp
      then show ?thesis by blast
    next
      case (Cons r rs)
      with eq "2.prems" have "p = c # r \<or> p \<in> set rs" by simp
      then show ?thesis
      proof
        assume p: "p = c # r"
        from Cons obtain b where "cs = r @ b" using split_str_first by blast
        with p have "c # cs = [] @ p @ b" by simp
        then show ?thesis by blast
      next
        assume "p \<in> set rs"
        with Cons have "p \<in> set (split_str sep cs)" by simp
        with False "2.IH"(2) obtain a b where "cs = a @ p @ b" by blast
        then have "c # cs = (c # a) @ p @ b" by simp
        then show ?thesis by blast
      qed
    qed
  qed
qed

lemma strip_piece: "\<exists>a b. p = a @ strip p @ b"
proof -
  let ?y = "dropWhile isspace p"
  let ?z = "dropWhile isspace (rev ?y)"
  have "rev ?y = takeWhile isspace (rev ?y) @ ?z" by simp
  then have "rev (rev ?y) = rev (takeWhile isspace (rev ?y) @ ?z)" by (rule arg_cong)
  then have "?y = rev ?z @ rev (takeWhile isspace (rev ?y))" by (simp only: rev_rev_ident rev_append)
  moreover have "p = takeWhile isspace p @ ?y" by simp
  ultimately have "p = takeWhile isspace p @ rev ?z @ rev (takeWhile isspace (rev ?y))"
    by simp
  then show ?thesis unfolding strip_def by blast
qed

lemma startswith_piece: "startswith q h \<Longrightarrow> \<exists>b. q = h @ b"
proof -
  assume "startswith q h"
  then have "take (length h) q = h" by (simp add: startswith_def)
  then have "q = h @ drop (length h) q" by (metis append_take_drop_id)
  then show ?thesis by blast
qed

lemma heading_in_output:
  assumes "p \<in> set (split_str sep output)" "startswith (strip p) heading"
  shows "contains output heading"
proof -
  from assms(1) obtain a b where 1: "output = a @ p @ b" using split_str_piece by blast
  obtain a' b' where 2: "p = a' @ strip p @ b'" using strip_piece by blast
  from assms(2) obtain c where 3: "strip p = heading @ c" using startswith_piece by blast
  from 2 3 have "p = a' @ heading @ c @ b'" by simp
  with 1 have "output = (a @ a') @ heading @ (c @ b' @ b)" by simp
  then show ?thesis using contains_append by metis
qed

section \<open>Well-formed responses\<close>

text \<open>
  A response is well formed when it is a preamble and then three fragments, each after the
  delimiter: optional whitespace, the heading, the body. No fragment may complete a
  delimiter of its own (not even with the first two characters of the next one), and
  no body may contain its own heading text. For such a response every field is the
  trimmed body.
\<close>

lemma split_str_no_occurrence:
  "\<not> contains s sep \<Longrightarrow> split_str sep s = [s]"
proof (induction s)
  case Nil
  show ?case by simp
next
  case (Cons c cs)
  from Cons.prems have n: "take (length sep) (c # cs) \<noteq> sep" and r: "\<not> contains cs sep"
    by simp_all
  from r have "split_str sep cs = [cs]" by (rule Cons.IH)
  with n show ?case by simp
qed

lemma take_append_le: "n \<le> length xs \<Longrightarrow> take n (xs @ ys) = take n xs"
  by simp

lemma split_str_match:
  "sep \<noteq> [] \<Longrightarrow> take (length sep) s = sep \<Longrightarrow>
     split_str sep s = [] # split_str sep (drop (length sep) s)"
  by (cases s) simp_all

lemma replace_str_match:
  "old \<noteq> [] \<Longrightarrow> take (length old) s = old \<Longrightarrow>
     replace_str old new s = new @ replace_str old new (drop (length old) s)"
  by (cases s) simp_all

lemma split_str_at:
  assumes "sep \<noteq> []" "\<not> contains (x @ butlast sep) sep"
  shows "split_str sep (x @ sep @ y) = x # split_str sep y"
  using assms(2)
proof (induction x)
  case Nil
  have "take (length sep) (sep @ y) = sep" by simp
  with assms(1) have "split_str sep (sep @ y) = [] # split_str sep (drop (length sep) (sep @ y))"
    by (rule split_str_match)
  then show ?case by simp
next
  case (Cons c x)
  from Cons.prems have n: "take (length sep) (c # x @ butlast sep) \<noteq> sep"
    and r: "\<not> contains (x @ butlast sep) sep"
    by simp_all
  from assms(1) have sep: "sep = butlast sep @ [last sep]" by simp
  have len: "length sep \<le> length (c # x @ butlast sep)" by simp
  have "c # x @ sep @ y = (c # x @ butlast sep) @ ([last sep] @ y)"
    by (subst (1) sep) simp
  moreover from len
  have "take (length sep) ((c # x @ butlast sep) @ ([last sep] @ y))
          = take (length sep) (c # x @ butlast sep)"
    by (rule take_append_le)
  ultimately
  have "take (length sep) (c # x @ sep @ y) = take (length sep) (c # x @ butlast sep)"
    by (simp only:)
  with n have n': "take (length sep) (c # x @ sep @ y) \<noteq> sep" by simp
  from r have "split_str sep (x @ sep @ y) = x # split_str sep y" by (rule Cons.IH)
  with n' show ?case by simp
qed

lemma replace_str_no_occurrence:
  "\<not> contains s old \<Longrightarrow> replace_str old new s = s"
proof (induction s)
  case Nil
  show ?case by simp
next
  case (Cons c cs)
  from Cons.prems have n: "take (length old) (c # cs) \<noteq> old" and r: "\<not> contains cs old"
    by simp_all
  from r have "replace_str old new cs = cs" by (rule Cons.IH)
  with n show ?case by simp
qed

lemma replace_str_heading:
  assumes "h \<noteq> []" "\<not> contains r h"
  shows "replace_str h [] (h @ r) = r"
proof -
  have "take (length h) (h @ r) = h" by simp
  with assms(1) have "replace_str h [] (h @ r) = [] @ replace_str h [] (drop (length h) (h @ r))"
    by (rule replace_str_match)
  with assms(2) show ?thesis by (simp add: replace_str_no_occurrence)
qed

lemma contains_prefix: "contains p h \<Longrightarrow> contains (p @ t) h"
proof (induction p)
  case Nil
  then have "h = []" by simp
  then show ?case by (cases t) simp_all
next
  case (Cons c p)
  from Cons.prems have "take (length h) (c # p) = h \<or> contains p h" by simp
  then show ?case
  proof
    assume t: "take (length h) (c # p) = h"
    have "length (take (length h) (c # p)) = min (length h) (length (c # p))"
      by (simp only: length_take)
    then have "length h = min (length h) (length (c # p))" by (simp only: t)
    then have "length h \<le> length (c # p)" by linarith
    then have "take (length h) ((c # p) @ t) = take (length h) (c # p)"
      by (rule take_append_le)
    with t show ?thesis by simp
  next
    assume "contains p h"
    then have "contains (p @ t) h" by (rule Cons.IH)
    then show ?thesis by simp
  qed
qed

lemma dropWhile_all: "list_all P xs \<Longrightarrow> dropWhile P (xs @ ys) = dropWhile P ys"
  by (induction xs) simp_all

lemma strip_unique:
  assumes "list_all isspace w" "list_all isspace w'" "y = [] \<or> trimmed y"
  shows "strip (w @ y @ w') = y"
proof (cases "y = []")
  case True
  from assms(1,2) True have "\<forall>x \<in> set (w @ y @ w'). isspace x"
    by (auto simp: list_all_iff)
  then have "dropWhile isspace (w @ y @ w') = []"
    by (simp only: dropWhile_eq_Nil_conv)
  then have "strip (w @ y @ w') = []" by (simp only: strip_def rev.simps dropWhile.simps)
  with True show ?thesis by simp
next
  case False
  with assms(3) have y: "y \<noteq> []" "\<not> isspace (hd y)" "\<not> isspace (last y)"
    by (simp_all add: trimmed_def)
  from y(1) have "y @ w' \<noteq> []" by simp
  moreover from y(1,2) have "\<not> isspace (hd (y @ w'))" by simp
  ultimately have "dropWhile isspace (y @ w') = y @ w'" by (rule dropWhile_head_id)
  moreover from assms(1) have "dropWhile isspace (w @ (y @ w')) = dropWhile isspace (y @ w')"
    by (rule dropWhile_all)
  ultimately have 1: "dropWhile isspace (w @ y @ w') = y @ w'" by simp
  from assms(2) have "list_all isspace (rev w')" by (simp add: list_all_iff)
  then have a: "dropWhile isspace (rev w' @ rev y) = dropWhile isspace (rev y)"
    by (rule dropWhile_all)
  from y(1) have "rev y \<noteq> []" by simp
  moreover from y(3) have "\<not> isspace (hd (rev y))" by (simp only: hd_rev simp_thms)
  ultimately have b: "dropWhile isspace (rev y) = rev y" by (rule dropWhile_head_id)
  from a b have 2: "dropWhile isspace (rev (y @ w')) = rev y" by (simp only: rev_append)
  show ?thesis by (simp only: strip_def 1 2 rev_rev_ident)
qed

lemma takeWhile_all: "list_all P (takeWhile P xs)"
  by (induction xs) simp_all

lemma strip_decomp:
  "\<exists>w w'. p = w @ strip p @ w' \<and> list_all isspace w \<and> list_all isspace w'"
proof -
  let ?y = "dropWhile isspace p"
  let ?z = "dropWhile isspace (rev ?y)"
  let ?w = "takeWhile isspace p"
  let ?v = "takeWhile isspace (rev ?y)"
  have "rev ?y = ?v @ ?z" by simp
  then have "rev (rev ?y) = rev (?v @ ?z)" by (rule arg_cong)
  then have "?y = rev ?z @ rev ?v" by (simp only: rev_rev_ident rev_append)
  moreover have "p = ?w @ ?y" by simp
  ultimately have "p = ?w @ rev ?z @ rev ?v" by simp
  then have "p = ?w @ strip p @ rev ?v" by (simp only: strip_def)
  moreover have "list_all isspace ?w" by (rule takeWhile_all)
  moreover have "list_all isspace (rev ?v)"
    using takeWhile_all [of isspace "rev ?y"] by (simp only: list_all_iff set_rev)
  ultimately show ?thesis by blast
qed

lemma strip_empty_or_trimmed: "strip p = [] \<or> trimmed (strip p)"
  using trimmed_strip by blast

lemma trimmed_append:
  assumes "trimmed h" "list_all isspace u" "trimmed y"
  shows "trimmed (h @ u @ y)"
  using assms by (simp add: trimmed_def)

lemma strip_Nil: "strip [] = []"
  by (simp add: strip_def)

lemma section_body:
  assumes "list_all isspace w" "trimmed h" "\<not> contains b h"
  shows "startswith (strip (w @ h @ b)) h
         \<and> strip (replace_str h [] (strip (w @ h @ b))) = strip b"
proof -
  from assms(2) have h: "h \<noteq> []" by (simp add: trimmed_def)
  obtain u u' where b: "b = u @ strip b @ u'" and u: "list_all isspace u" "list_all isspace u'"
    using strip_decomp by blast
  let ?y = "strip b"
  show ?thesis
  proof (cases "?y = []")
    case True
    with b have "b = u @ u'" by simp
    with u have "list_all isspace b" by simp
    with assms(1) have f: "strip (w @ h @ b) = h"
      using assms(2) by (intro strip_unique) simp_all
    from h have "\<not> contains [] h" by simp
    with h have "replace_str h [] (h @ []) = []" by (rule replace_str_heading)
    then have "strip (replace_str h [] h) = []" by (simp add: strip_Nil)
    with True show ?thesis unfolding f by (simp add: startswith_def)
  next
    case False
    have nc: "\<not> contains (u @ ?y) h"
    proof
      assume "contains (u @ ?y) h"
      then have "contains ((u @ ?y) @ u') h" by (rule contains_prefix)
      with b have "contains b h" by simp
      with assms(3) show False by contradiction
    qed
    from False have ty: "trimmed ?y" using strip_empty_or_trimmed by blast
    with assms(2) u(1) have "trimmed (h @ u @ ?y)" by (rule trimmed_append)
    with assms(1) u(2) have "strip (w @ (h @ u @ ?y) @ u') = h @ u @ ?y"
      by (intro strip_unique) simp_all
    moreover from b have "w @ h @ b = w @ (h @ u @ ?y) @ u'" by simp
    ultimately have f: "strip (w @ h @ b) = h @ u @ ?y" by simp
    from h nc have r: "replace_str h [] (h @ (u @ ?y)) = u @ ?y" by (rule replace_str_heading)
    have "strip (u @ ?y @ []) = ?y"
      using u(1) ty by (intro strip_unique) simp_all
    then have "strip (u @ ?y) = ?y" by simp
    with r show ?thesis unfolding f by (simp add: startswith_def)
  qed
qed

lemma headings_trimmed:
  "trimmed ''Short Notes''" "trimmed ''Bullet Points''" "trimmed ''Exam-Oriented Summary''"
  by code_simp+

lemma last_heading_fragment:
  assumes "P f" "list_all (\<lambda>g. \<not> P g) gs"
  shows "(case filter P (pre @ f # gs) of [] \<Rightarrow> d | p # ps \<Rightarrow> F (last (p # ps))) = F f"
proof -
  from assms(2) have "filter P gs = []" by (simp add: filter_empty_conv list_all_iff)
  with assms(1) have e: "filter P (pre @ f # gs) = filter P pre @ [f]" by simp
  obtain p ps where c: "filter P pre @ [f] = p # ps"
    by (cases "filter P pre @ [f]") simp_all
  have "last (filter P pre @ [f]) = f" by simp
  then have "last (p # ps) = f" by (simp only: c)
  then show ?thesis by (simp only: e c list.case)
qed

lemma parse_response_well_formed:
  assumes ws: "list_all isspace w1" "list_all isspace w2" "list_all isspace w3"
    and d0: "\<not> contains (pre @ ''##'') ''###''"
    and d1: "\<not> contains ((w1 @ ''Short Notes'' @ b1) @ ''##'') ''###''"
    and d2: "\<not> contains ((w2 @ ''Bullet Points'' @ b2) @ ''##'') ''###''"
    and d3: "\<not> contains (w3 @ ''Exam-Oriented Summary'' @ b3) ''###''"
    and n1: "\<not> contains b1 ''Short Notes''"
    and n2: "\<not> contains b2 ''Bullet Points''"
    and n3: "\<not> contains b3 ''Exam-Oriented Summary''"
  shows "parse_response
           (pre @ ''###'' @ (w1 @ ''Short Notes'' @ b1) @ ''###''
                @ (w2 @ ''Bullet Points'' @ b2) @ ''###''
                @ (w3 @ ''Exam-Oriented Summary'' @ b3))
         = \<lparr>short_notes = strip b1, bullet_points = strip b2, exam_summary = strip b3\<rparr>"
proof -
  let ?f1 = "w1 @ ''Short Notes'' @ b1"
  let ?f2 = "w2 @ ''Bullet Points'' @ b2"
  let ?f3 = "w3 @ ''Exam-Oriented Summary'' @ b3"
  let ?out = "pre @ ''###'' @ ?f1 @ ''###'' @ ?f2 @ ''###'' @ ?f3"
  have bl: "butlast ''###'' = ''##''" by simp
  have ne: "''###'' \<noteq> []" by simp
  have s3: "split_str ''###'' ?f3 = [?f3]"
    using d3 by (rule split_str_no_occurrence)
  have e0: "\<not> contains (pre @ butlast ''###'') ''###''" unfolding bl by (rule d0)
  have e1: "\<not> contains (?f1 @ butlast ''###'') ''###''" unfolding bl by (rule d1)
  have e2: "\<not> contains (?f2 @ butlast ''###'') ''###''" unfolding bl by (rule d2)
  have s2: "split_str ''###'' (?f2 @ ''###'' @ ?f3) = ?f2 # split_str ''###'' ?f3"
    using ne e2 by (rule split_str_at)
  have s1: "split_str ''###'' (?f1 @ ''###'' @ (?f2 @ ''###'' @ ?f3))
              = ?f1 # split_str ''###'' (?f2 @ ''###'' @ ?f3)"
    using ne e1 by (rule split_str_at)
  have s0: "split_str ''###'' (pre @ ''###'' @ (?f1 @ ''###'' @ (?f2 @ ''###'' @ ?f3)))
              = pre # split_str ''###'' (?f1 @ ''###'' @ (?f2 @ ''###'' @ ?f3))"
    using ne e0 by (rule split_str_at)
  have "?out = pre @ ''###'' @ (?f1 @ ''###'' @ (?f2 @ ''###'' @ ?f3))"
    by (simp only: append_assoc)
  then have sp: "split_str ''###'' ?out = [pre, ?f1, ?f2, ?f3]"
    by (simp only: s0 s1 s2 s3)
  note b1 = section_body [OF ws(1) headings_trimmed(1) n1]
  note b2 = section_body [OF ws(2) headings_trimmed(2) n2]
  note b3 = section_body [OF ws(3) headings_trimmed(3) n3]
  have x12: "\<not> startswith (strip ?f2) ''Short Notes''"
    using b2 headings_exclusive(1) by blast
  have x13: "\<not> startswith (strip ?f3) ''Short Notes''"
    using b3 headings_exclusive(2) by blast
  have x21: "\<not> startswith (strip ?f1) ''Bullet Points''"
    using b1 headings_exclusive(1) by blast
  have x23: "\<not> startswith (strip ?f3) ''Bullet Points''"
    using b3 headings_exclusive(3) by blast
  have m: "map strip [pre, ?f1, ?f2, ?f3] = [strip pre] @ strip ?f1 # [strip ?f2, strip ?f3]"
    "map strip [pre, ?f1, ?f2, ?f3] = [strip pre, strip ?f1] @ strip ?f2 # [strip ?f3]"
    "map strip [pre, ?f1, ?f2, ?f3] = [strip pre, strip ?f1, strip ?f2] @ strip ?f3 # []"
    by simp_all
  have 1: "section_of ''Short Notes'' ?out = strip b1"
    unfolding section_of_def sp m(1)
    using b1 x12 x13 by (subst last_heading_fragment) simp_all
  have 2: "section_of ''Bullet Points'' ?out = strip b2"
    unfolding section_of_def sp m(2)
    using b2 x23 by (subst last_heading_fragment) simp_all
  have 3: "section_of ''Exam-Oriented Summary'' ?out = strip b3"
    unfolding section_of_def sp m(3)
    using b3 by (subst last_heading_fragment) simp_all
  from 1 2 3 show ?thesis
    by (cases "parse_response ?out") (simp add: parse_response_fields [symmetric])
qed

lemma parse_response_well_formed_example:
  "parse_response ''### Short Notes\<newline>Heat is energy.\<newline>\<newline>### Bullet Points\<newline>- Heat flows.\<newline>\<newline>### Exam-Oriented Summary\<newline>Define heat.\<newline>''
   = \<lparr>short_notes = ''Heat is energy.'', bullet_points = ''- Heat flows.'',
       exam_summary = ''Define heat.''\<rparr>"
proof -
  have w: "list_all isspace '' ''" by code_simp
  have d0: "\<not> contains ([] @ ''##'') ''###''" by code_simp
  have d1: "\<not> contains (('' '' @ ''Short Notes'' @ ''\<newline>Heat is energy.\<newline>\<newline>'') @ ''##'') ''###''"
    by code_simp
  have d2: "\<not> contains (('' '' @ ''Bullet Points'' @ ''\<newline>- Heat flows.\<newline>\<newline>'') @ ''##'') ''###''"
    by code_simp
  have d3: "\<not> contains ('' '' @ ''Exam-Oriented Summary'' @ ''\<newline>Define heat.\<newline>'') ''###''"
    by code_simp
  have n1: "\<not> contains ''\<newline>Heat is energy.\<newline>\<newline>'' ''Short Notes''" by code_simp
  have n2: "\<not> contains ''\<newline>- Heat flows.\<newline>\<newline>'' ''Bullet Points''" by code_simp
  have n3: "\<not> contains ''\<newline>Define heat.\<newline>'' ''Exam-Oriented Summary''" by code_simp
  have s: "strip ''\<newline>Heat is energy.\<newline>\<newline>'' = ''Heat is energy.''"
    "strip ''\<newline>- Heat flows.\<newline>\<newline>'' = ''- Heat flows.''"
    "strip ''\<newline>Define heat.\<newline>'' = ''Define heat.''"
    by code_simp+
  from parse_response_well_formed [OF w w w d0 d1 d2 d3 n1 n2 n3]
  show ?thesis by (simp add: s)
qed

section \<open>Claims about the notes generator\<close>

text \<open>
  C4. The parser has no failing branch: whenever the model client answers, the generator
  returns three sections. For every response, each section whose heading starts none of
  the trimmed fragments between the \<open>###\<close> delimiters is the empty string. In
  particular, when the response does not contain the text \<open>Bullet Points\<close> at all,
  \<open>bullet_points\<close> is empty while \<open>short_notes\<close> and \<open>exam_summary\<close> still hold
  what the last fragment under their heading gives.
\<close>

theorem parse_response_missing_sections:
  "(generate_content (prompt text difficulty) = Inr (Some output)
      \<longrightarrow> generate_notes generate_content text difficulty = Inr (parse_response output))
   \<and> (\<not> (\<exists>p \<in> set (split_str ''###'' output). startswith (strip p) ''Short Notes'')
      \<longrightarrow> short_notes (parse_response output) = [])
   \<and> (\<not> (\<exists>p \<in> set (split_str ''###'' output). startswith (strip p) ''Bullet Points'')
      \<longrightarrow> bullet_points (parse_response output) = [])
   \<and> (\<not> (\<exists>p \<in> set (split_str ''###'' output). startswith (strip p) ''Exam-Oriented Summary'')
      \<longrightarrow> exam_summary (parse_response output) = [])
   \<and> (\<not> contains output ''Bullet Points''
      \<longrightarrow> bullet_points (parse_response output) = []
        \<and> short_notes (parse_response output) = section_of ''Short Notes'' output
        \<and> exam_summary (parse_response output) = section_of ''Exam-Oriented Summary'' output)"
proof (intro conjI impI)
  assume "generate_content (prompt text difficulty) = Inr (Some output)"
  then show "generate_notes generate_content text difficulty = Inr (parse_response output)"
    by (simp add: generate_notes_def)
next
  assume "\<not> (\<exists>p \<in> set (split_str ''###'' output). startswith (strip p) ''Short Notes'')"
  then show "short_notes (parse_response output) = []"
    unfolding parse_response_fields by (rule section_of_missing)
next
  assume "\<not> (\<exists>p \<in> set (split_str ''###'' output). startswith (strip p) ''Bullet Points'')"
  then show "bullet_points (parse_response output) = []"
    unfolding parse_response_fields by (rule section_of_missing)
next
  assume "\<not> (\<exists>p \<in> set (split_str ''###'' output).
               startswith (strip p) ''Exam-Oriented Summary'')"
  then show "exam_summary (parse_response output) = []"
    unfolding parse_response_fields by (rule section_of_missing)
next
  assume "\<not> contains output ''Bullet Points''"
  then have "\<not> (\<exists>p \<in> set (split_str ''###'' output). startswith (strip p) ''Bullet Points'')"
    using heading_in_output by blast
  then show "bullet_points (parse_response output) = []"
    unfolding parse_response_fields by (rule section_of_missing)
next
  show "short_notes (parse_response output) = section_of ''Short Notes'' output"
    by (rule parse_response_fields)
next
  show "exam_summary (parse_response output) = section_of ''Exam-Oriented Summary'' output"
    by (rule parse_response_fields)
qed

theorem parse_response_missing_sections_witness:
  "\<not> contains ''### Short Notes\<newline>**Heat** is energy.\<newline>\<newline>### Exam-Oriented Summary\<newline>Define heat.\<newline>''
       ''Bullet Points''
   \<and> generate_notes
        (answers ''### Short Notes\<newline>**Heat** is energy.\<newline>\<newline>### Exam-Oriented Summary\<newline>Define heat.\<newline>'')
        ''Heat is energy.'' ''easy''
     = Inr \<lparr>short_notes = ''**Heat** is energy.'', bullet_points = [],
            exam_summary = ''Define heat.''\<rparr>"
proof -
  let ?out = "''### Short Notes\<newline>**Heat** is energy.\<newline>\<newline>### Exam-Oriented Summary\<newline>Define heat.\<newline>''"
  have c: "\<not> contains ?out ''Bullet Points''" by code_simp
  have a: "answers ?out (prompt ''Heat is energy.'' ''easy'') = Inr (Some ?out)"
    by (simp add: answers_def)
  have s: "section_of ''Short Notes'' ?out = ''**Heat** is energy.''" by code_simp
  have e: "section_of ''Exam-Oriented Summary'' ?out = ''Define heat.''" by code_simp
  from parse_response_missing_sections
         [of "answers ?out" "''Heat is energy.''" "''easy''" ?out] a c
  have g: "generate_notes (answers ?out) ''Heat is energy.'' ''easy'' = Inr (parse_response ?out)"
    and f: "bullet_points (parse_response ?out) = []"
      "short_notes (parse_response ?out) = section_of ''Short Notes'' ?out"
      "exam_summary (parse_response ?out) = section_of ''Exam-Oriented Summary'' ?out"
    by blast+
  from f s e have "parse_response ?out
      = \<lparr>short_notes = ''**Heat** is energy.'', bullet_points = [],
          exam_summary = ''Define heat.''\<rparr>"
    by (cases "parse_response ?out") simp
  with g c show ?thesis by simp
qed

text \<open>
  C3. A response with the three headings in order, each after the \<open>###\<close> delimiter and
  each with a nonempty body, is to come back as the three trimmed bodies. The parser
  removes the heading with \<open>replace\<close>, which deletes every occurrence of the heading
  text in the fragment, not only the leading one: a body that mentions its own heading
  loses those words. Here the summary \<open>This Exam-Oriented Summary covers heat.\<close> comes
  back as \<open>This  covers heat.\<close>
\<close>

theorem parse_response_drops_heading_text:
  "generate_notes
     (answers ''### Short Notes\<newline>Heat is energy.\<newline>\<newline>### Bullet Points\<newline>- Heat flows.\<newline>\<newline>### Exam-Oriented Summary\<newline>This Exam-Oriented Summary covers heat.\<newline>'')
     ''Heat is energy.'' ''easy''
   = Inr \<lparr>short_notes = ''Heat is energy.'', bullet_points = ''- Heat flows.'',
          exam_summary = ''This  covers heat.''\<rparr>"
proof -
  let ?out = "''### Short Notes\<newline>Heat is energy.\<newline>\<newline>### Bullet Points\<newline>- Heat flows.\<newline>\<newline>### Exam-Oriented Summary\<newline>This Exam-Oriented Summary covers heat.\<newline>''"
  have "parse_response ?out
        = \<lparr>short_notes = ''Heat is energy.'', bullet_points = ''- Heat flows.'',
            exam_summary = ''This  covers heat.''\<rparr>"
    by code_simp
  then show ?thesis by (simp add: generate_notes_def answers_def)
qed

end
